theory Spec2Isabelle
  imports Main "HOL-Library.Word"
begin

section \<open>Lotus: a registry of reference-counted resources\<close>

text \<open>
  A shallow embedding of \<^verbatim>\<open>include/lotus/lotus.hpp\<close>. The header is a template over
  \<open>resource_type\<close>; here a pointer \<open>resource_type*\<close> is a value of \<open>'r option\<close>, with
  \<open>None\<close> for \<open>nullptr\<close>.
\<close>

subsection \<open>Data\<close>

text \<open>\<^verbatim>\<open>enum class states\<close> (lines 122-126).\<close>

datatype states = loaded | unloaded | waiting_load

text \<open>
  \<^verbatim>\<open>struct shared\<close> (lines 128-133): the state, the \<^verbatim>\<open>unsigned int\<close> handle count
  (a 32-bit word: \<^verbatim>\<open>fetch_add\<close> and \<^verbatim>\<open>fetch_sub\<close> wrap) and the object pointer.
  The \<^verbatim>\<open>registry\<close> back-pointer is always \<^verbatim>\<open>this\<close> (line 101); the world below
  holds one registry, so the field is not stored and \<^verbatim>\<open>shr->registry->ruc\<close> is that
  registry's unload callback.
\<close>

record 'r shared =
  state :: states
  count :: "32 word"
  object :: "'r option"

text \<open>
  What an execution does beyond changing memory is written to a trace: the two operations
  of \<^verbatim>\<open>std::mutex\<close> and the invocations of the two callbacks, with the argument each
  invocation receives.
\<close>

datatype 'r event = Lock | Unlock | Request string | Unload "'r option"

text \<open>
  The registry (lines 62-114) together with the memory its slots live in. A slot is
  allocated with \<^verbatim>\<open>new shared\<close> and never freed, and the registry map and the handles
  hold pointers to it: \<open>heap\<close> is the store of all slots, a \<^verbatim>\<open>shared*\<close> is an index
  into it, and \<open>reg_map\<close> is the member \<^verbatim>\<open>reg\<close>, the \<^verbatim>\<open>unordered_map\<close> from names to
  slot pointers, as an association list. The loops of the bulk functions iterate it from
  the front; C++ leaves the order of an \<^verbatim>\<open>unordered_map\<close> open, and no property below
  depends on it. \<open>mutex\<close> tells whether \<^verbatim>\<open>std::mutex mutex\<close> is locked.
\<close>

record 'r world =
  mutex :: bool
  reg_map :: "(string \<times> nat) list"
  heap :: "'r shared list"
  trace :: "'r event list"

text \<open>\<^verbatim>\<open>struct resource_handle\<close> (lines 119-188): one pointer, null when empty.\<close>

record resource_handle =
  shr :: "nat option"

text \<open>
  The callbacks are the client's code. The unload callback receives the object pointer
  only, and its invocation is the event \<open>Unload\<close>. The request callback receives the name
  and the registry; the model takes as a parameter the calls of \<^verbatim>\<open>reg\<close> it makes on that
  registry before it returns, as a list of names and objects (the empty list is a
  callback that defers the load).
\<close>

type_synonym 'r resource_request_callback = "string \<Rightarrow> (string \<times> 'r option) list"

text \<open>The constructor (lines 110-113): an empty map, a free mutex.\<close>

definition resource_registry :: "'r world" where
  "resource_registry = \<lparr>mutex = False, reg_map = [], heap = [], trace = []\<rparr>"

subsection \<open>The mutex\<close>

text \<open>
  \<^verbatim>\<open>std::lock_guard\<close> locks in its constructor and unlocks in its destructor.
  Executions are sequential: one thread calls the functions, and the callbacks run on it.
  Locking a mutex the thread holds would never return; no function below does so when it
  is called with the mutex free (lemma \<open>never_locks_held_mutex\<close>), and each returns
  with the mutex free (lemma \<open>mutex_free_after\<close>). Unlocking a mutex that is not held
  is undefined in C++; the model records the event and leaves the mutex free, so that the
  trace shows every unlock the code performs.
\<close>

definition lock :: "'r world \<Rightarrow> 'r world" where
  "lock w = w\<lparr>mutex := True, trace := trace w @ [Lock]\<rparr>"

definition unlock :: "'r world \<Rightarrow> 'r world" where
  "unlock w = w\<lparr>mutex := False, trace := trace w @ [Unlock]\<rparr>"

subsection \<open>The registry\<close>

text \<open>\<^verbatim>\<open>find_or_create_shared\<close> (lines 92-107).\<close>

definition find_or_create_shared :: "string \<Rightarrow> 'r world \<Rightarrow> nat \<times> 'r world" where
  "find_or_create_shared name w =
     (case map_of (reg_map w) name of
        Some a \<Rightarrow> (a, w)
      | None \<Rightarrow>
          (length (heap w),
           w\<lparr>heap := heap w @ [\<lparr>state = unloaded, count = 0, object = None\<rparr>],
             reg_map := reg_map w @ [(name, length (heap w))]\<rparr>))"

text \<open>The invocation \<^verbatim>\<open>ruc(object)\<close> of the unload callback.\<close>

definition ruc :: "'r option \<Rightarrow> 'r world \<Rightarrow> 'r world" where
  "ruc obj w = w\<lparr>trace := trace w @ [Unload obj]\<rparr>"

text \<open>Writes through a slot pointer.\<close>

definition store_state :: "nat \<Rightarrow> states \<Rightarrow> 'r world \<Rightarrow> 'r world" where
  "store_state a s w = w\<lparr>heap := (heap w)[a := (heap w ! a)\<lparr>state := s\<rparr>]\<rparr>"

definition store_object :: "nat \<Rightarrow> 'r option \<Rightarrow> 'r world \<Rightarrow> 'r world" where
  "store_object a obj w = w\<lparr>heap := (heap w)[a := (heap w ! a)\<lparr>object := obj\<rparr>]\<rparr>"

definition store_count :: "nat \<Rightarrow> 32 word \<Rightarrow> 'r world \<Rightarrow> 'r world" where
  "store_count a c w = w\<lparr>heap := (heap w)[a := (heap w ! a)\<lparr>count := c\<rparr>]\<rparr>"

text \<open>
  \<^verbatim>\<open>lotus::reg\<close> (lines 212-227). The lock guard is destroyed by hand at line 223 and
  again when the function returns.
\<close>

definition reg :: "string \<Rightarrow> 'r option \<Rightarrow> 'r world \<Rightarrow> 'r world" where
  "reg name obj w =
     (let (a, w1) = find_or_create_shared name (lock w);
          w2 = unlock w1;
          w3 = store_object a obj w2;
          w4 = store_state a loaded w3
      in unlock w4)"

text \<open>The invocation \<^verbatim>\<open>rrc(name, reg)\<close> of the request callback.\<close>

definition rrc_call :: "'r resource_request_callback \<Rightarrow> string \<Rightarrow> 'r world \<Rightarrow> 'r world" where
  "rrc_call rrc name w =
     fold (\<lambda>(n, obj). reg n obj) (rrc name) (w\<lparr>trace := trace w @ [Request name]\<rparr>)"

subsection \<open>Handles\<close>

text \<open>The private constructor from a slot pointer (lines 150-152).\<close>

definition handle_from :: "nat option \<Rightarrow> 'r world \<Rightarrow> resource_handle \<times> 'r world" where
  "handle_from p w =
     (case p of
        None \<Rightarrow> (\<lparr>shr = None\<rparr>, w)
      | Some a \<Rightarrow> (\<lparr>shr = Some a\<rparr>, store_count a (count (heap w ! a) + 1) w))"

text \<open>The default constructor (line 155).\<close>

definition empty_handle :: resource_handle where
  "empty_handle = \<lparr>shr = None\<rparr>"

text \<open>The copy constructor (lines 157-159).\<close>

definition clone :: "resource_handle \<Rightarrow> 'r world \<Rightarrow> resource_handle \<times> 'r world" where
  "clone other w =
     (case shr other of
        None \<Rightarrow> (\<lparr>shr = None\<rparr>, w)
      | Some a \<Rightarrow> (\<lparr>shr = Some a\<rparr>, store_count a (count (heap w ! a) + 1) w))"

text \<open>
  The destructor (lines 170-176). \<^verbatim>\<open>fetch_sub\<close> stores the decremented count and
  returns the count it found; the state is read after it.
\<close>

definition destroy :: "resource_handle \<Rightarrow> 'r world \<Rightarrow> resource_handle \<times> 'r world" where
  "destroy h w =
     (case shr h of
        None \<Rightarrow> (\<lparr>shr = None\<rparr>, w)
      | Some a \<Rightarrow>
          (let old = count (heap w ! a);
               w1 = store_count a (old - 1) w
           in if old = 1 \<and> state (heap w1 ! a) = loaded
              then (\<lparr>shr = None\<rparr>, ruc (object (heap w1 ! a)) (store_state a unloaded w1))
              else (\<lparr>shr = None\<rparr>, w1)))"

text \<open>Copy assignment (lines 161-168), \<open>h\<close> being \<^verbatim>\<open>*this\<close>.\<close>

definition assign :: "resource_handle \<Rightarrow> resource_handle \<Rightarrow> 'r world \<Rightarrow> resource_handle \<times> 'r world" where
  "assign h other w =
     (if shr h = shr other then (h, w)
      else handle_from (shr other) (snd (destroy h w)))"

text \<open>
  \<^verbatim>\<open>good\<close> (lines 179-181) and \<^verbatim>\<open>operator->\<close> (lines 185-187) read through the
  pointer with no check: on an empty handle they dereference \<^verbatim>\<open>nullptr\<close>, which is
  the result \<open>None\<close> here.
\<close>

definition good :: "'r world \<Rightarrow> resource_handle \<Rightarrow> bool option" where
  "good w h =
     (case shr h of
        None \<Rightarrow> None
      | Some a \<Rightarrow> Some (state (heap w ! a) = loaded))"

definition arrow :: "'r world \<Rightarrow> resource_handle \<Rightarrow> 'r option option" where
  "arrow w h =
     (case shr h of
        None \<Rightarrow> None
      | Some a \<Rightarrow> Some (object (heap w ! a)))"

subsection \<open>The functions\<close>

text \<open>
  \<^verbatim>\<open>lotus::get\<close> (lines 193-210). The returned handle is constructed before the
  lock guard goes out of scope, where it is destroyed a second time.
\<close>

definition get :: "'r resource_request_callback \<Rightarrow> string \<Rightarrow> 'r world \<Rightarrow> resource_handle \<times> 'r world" where
  "get rrc name w =
     (let (a, w1) = find_or_create_shared name (lock w);
          w2 = unlock w1;
          w3 = (if state (heap w2 ! a) = unloaded then rrc_call rrc name w2 else w2);
          (h, w4) = handle_from (Some a) w3
      in (h, unlock w4))"

text \<open>
  The loop of \<^verbatim>\<open>lotus::reload_registry\<close> (lines 240-248) over the entries of the map,
  with the world and the vector \<^verbatim>\<open>to_load\<close>.
\<close>

fun reload_loop :: "(string \<times> nat) list \<Rightarrow> 'r world \<Rightarrow> string list \<Rightarrow> 'r world \<times> string list" where
  "reload_loop [] w to_load = (w, to_load)"
| "reload_loop ((name, a) # ps) w to_load =
     (if state (heap w ! a) = loaded
      then reload_loop ps (ruc (object (heap w ! a)) (store_state a unloaded w)) (to_load @ [name])
      else reload_loop ps w to_load)"

text \<open>\<^verbatim>\<open>lotus::reload_registry\<close> (lines 230-252).\<close>

definition reload_registry :: "'r resource_request_callback \<Rightarrow> 'r world \<Rightarrow> 'r world" where
  "reload_registry rrc w =
     (let w1 = lock w;
          (w2, to_load) = reload_loop (reg_map w1) w1 [];
          w3 = unlock w2;
          w4 = fold (rrc_call rrc) to_load w3
      in unlock w4)"

text \<open>The loop of \<^verbatim>\<open>lotus::unload_registry\<close> (lines 261-268).\<close>

fun unload_loop :: "(string \<times> nat) list \<Rightarrow> 'r world \<Rightarrow> 'r world" where
  "unload_loop [] w = w"
| "unload_loop ((name, a) # ps) w =
     (if state (heap w ! a) = loaded
      then unload_loop ps (ruc (object (heap w ! a)) (store_state a unloaded w))
      else unload_loop ps w)"

text \<open>\<^verbatim>\<open>lotus::unload_registry\<close> (lines 254-269): the guard is destroyed once, at the end.\<close>

definition unload_registry :: "'r world \<Rightarrow> 'r world" where
  "unload_registry w = unlock (unload_loop (reg_map (lock w)) (lock w))"

section \<open>Vocabulary of the properties\<close>

subsection \<open>Well-formed registries\<close>

text \<open>
  What the registry keeps true of its map: the keys are distinct (it is a map), each name
  has a slot of its own, and every slot pointer in it was allocated. A fresh registry is
  well formed (lemma \<open>wf_registry\<close>) and every function keeps it so (lemma
  \<open>wf_world_invariant\<close>).
\<close>

definition wf_world :: "'r world \<Rightarrow> bool" where
  "wf_world w \<longleftrightarrow>
     distinct (map fst (reg_map w)) \<and> distinct (map snd (reg_map w)) \<and>
     (\<forall>a \<in> set (map snd (reg_map w)). a < length (heap w))"

subsection \<open>Traces\<close>

text \<open>The events an execution from \<open>w\<close> to \<open>w'\<close> adds to the trace.\<close>

definition events_since :: "'r world \<Rightarrow> 'r world \<Rightarrow> 'r event list" where
  "events_since w w' = drop (length (trace w)) (trace w')"

text \<open>The invocations of the two callbacks in a list of events.\<close>

fun is_request :: "'r event \<Rightarrow> bool" where
  "is_request (Request n) = True"
| "is_request e = False"

fun is_unload :: "'r event \<Rightarrow> bool" where
  "is_unload (Unload obj) = True"
| "is_unload e = False"

definition callbacks :: "'r event list \<Rightarrow> 'r event list" where
  "callbacks es = filter (\<lambda>e. is_request e \<or> is_unload e) es"

text \<open>
  The entries of the map whose slot is \<open>loaded\<close>, their names, and the invocation of the
  unload callback on the object of an entry.
\<close>

definition loaded_entries :: "'r world \<Rightarrow> (string \<times> nat) list" where
  "loaded_entries w = filter (\<lambda>(n, a). state (heap w ! a) = loaded) (reg_map w)"

definition loaded_names :: "'r world \<Rightarrow> string list" where
  "loaded_names w = map fst (loaded_entries w)"

definition unload_of :: "'r world \<Rightarrow> string \<times> nat \<Rightarrow> 'r event" where
  "unload_of w p = Unload (object (heap w ! snd p))"

text \<open>The events of one invocation of the request callback: the call, then its calls of \<^verbatim>\<open>reg\<close>.\<close>

definition request_events :: "'r resource_request_callback \<Rightarrow> string \<Rightarrow> 'r event list" where
  "request_events rrc name = Request name # concat (map (\<lambda>_. [Lock, Unlock, Unlock]) (rrc name))"

subsection \<open>The mutex along a trace\<close>

text \<open>
  Replaying a list of events from a mutex that is held (\<open>True\<close>) or free: \<open>mutex_after\<close>
  is the mutex at the end, \<open>held_at\<close> pairs every event with the mutex it finds.
\<close>

fun mutex_after :: "bool \<Rightarrow> 'r event list \<Rightarrow> bool" where
  "mutex_after m [] = m"
| "mutex_after m (Lock # es) = mutex_after True es"
| "mutex_after m (Unlock # es) = mutex_after False es"
| "mutex_after m (e # es) = mutex_after m es"

fun held_at :: "bool \<Rightarrow> 'r event list \<Rightarrow> ('r event \<times> bool) list" where
  "held_at m [] = []"
| "held_at m (e # es) = (e, m) # held_at (mutex_after m [e]) es"

text \<open>
  No callback runs while the mutex is held; no request callback does; every unload
  callback does.
\<close>

definition callbacks_unlocked :: "bool \<Rightarrow> 'r event list \<Rightarrow> bool" where
  "callbacks_unlocked m es \<longleftrightarrow>
     (\<forall>(e, held) \<in> set (held_at m es). is_request e \<or> is_unload e \<longrightarrow> \<not> held)"

definition requests_unlocked :: "bool \<Rightarrow> 'r event list \<Rightarrow> bool" where
  "requests_unlocked m es \<longleftrightarrow> (\<forall>(e, held) \<in> set (held_at m es). is_request e \<longrightarrow> \<not> held)"

definition unloads_locked :: "bool \<Rightarrow> 'r event list \<Rightarrow> bool" where
  "unloads_locked m es \<longleftrightarrow> (\<forall>(e, held) \<in> set (held_at m es). is_unload e \<longrightarrow> held)"

text \<open>
  Balanced locking: every \<open>Lock\<close> finds the mutex free, every \<open>Unlock\<close> finds it held,
  and it is free at the end. \<open>locks_free\<close> is the first part alone.
\<close>

fun balanced :: "bool \<Rightarrow> 'r event list \<Rightarrow> bool" where
  "balanced m [] = (\<not> m)"
| "balanced m (Lock # es) = (\<not> m \<and> balanced True es)"
| "balanced m (Unlock # es) = (m \<and> balanced False es)"
| "balanced m (e # es) = balanced m es"

fun locks_free :: "bool \<Rightarrow> 'r event list \<Rightarrow> bool" where
  "locks_free m [] = True"
| "locks_free m (Lock # es) = (\<not> m \<and> locks_free True es)"
| "locks_free m (Unlock # es) = locks_free False es"
| "locks_free m (e # es) = locks_free m es"

subsection \<open>Pairing of loads and unloads\<close>

text \<open>The number of slots that hold \<open>obj\<close> as their loaded object.\<close>

definition held :: "'r world \<Rightarrow> 'r option \<Rightarrow> nat" where
  "held w obj = length (filter (\<lambda>s. state s = loaded \<and> object s = obj) (heap w))"

text \<open>
  The registrations the request callback makes along a list of events: every invocation
  \<open>Request n\<close> of the callback is followed by its calls of \<^verbatim>\<open>reg\<close>, the list \<open>rrc n\<close>
  (see \<open>rrc_call\<close>); \<open>registered\<close> counts those of \<open>obj\<close>.
\<close>

fun requested :: "'r event list \<Rightarrow> string list" where
  "requested [] = []"
| "requested (Request n # es) = n # requested es"
| "requested (e # es) = requested es"

definition registered :: "'r resource_request_callback \<Rightarrow> 'r event list \<Rightarrow> 'r option \<Rightarrow> nat" where
  "registered rrc es obj = count_list (map snd (concat (map rrc (requested es)))) obj"

text \<open>
  The account of \<open>obj\<close> between two worlds, with \<open>d\<close> registrations by the client itself
  and \<open>l\<close> registrations lost: unloads and slots holding \<open>obj\<close> on one side,
  registrations on the other.
\<close>

definition accounts ::
    "'r resource_request_callback \<Rightarrow> 'r option \<Rightarrow> 'r world \<Rightarrow> 'r world \<Rightarrow> nat \<Rightarrow> nat \<Rightarrow> bool" where
  "accounts rrc obj w w' d l \<longleftrightarrow>
     (\<exists>es. trace w' = trace w @ es \<and>
        count_list es (Unload obj) + held w' obj + l = held w obj + d + registered rrc es obj)"

text \<open>
  The slot of a name exists and is \<open>loaded\<close>; a request callback that registers nothing
  but the name it is asked for, once at most.
\<close>

definition slot_loaded :: "'r world \<Rightarrow> string \<Rightarrow> bool" where
  "slot_loaded w name =
     (case map_of (reg_map w) name of None \<Rightarrow> False | Some a \<Rightarrow> state (heap w ! a) = loaded)"

definition own_name_once :: "'r resource_request_callback \<Rightarrow> bool" where
  "own_name_once rrc \<longleftrightarrow> (\<forall>m. length (rrc m) \<le> 1 \<and> (\<forall>p \<in> set (rrc m). fst p = m))"

subsection \<open>Client programs\<close>

text \<open>
  What a client does with a registry: it registers an object under a name, calls
  \<^verbatim>\<open>get\<close> and keeps the handle, copies a handle it holds, destroys one, or calls one of
  the two bulk functions. The state of a run is the world and the list of handles the
  client holds; \<open>Clone i\<close> and \<open>Drop i\<close> refer to the \<open>i\<close>-th of them and do nothing when
  there is none.
\<close>

datatype 'r client_op =
  Reg string "'r option" | Get string | Clone nat | Drop nat | Unload_all | Reload_all

fun client_step :: "'r resource_request_callback \<Rightarrow> 'r client_op \<Rightarrow>
    'r world \<times> resource_handle list \<Rightarrow> 'r world \<times> resource_handle list" where
  "client_step rrc (Reg name obj) (w, hs) = (reg name obj w, hs)"
| "client_step rrc (Get name) (w, hs) = (snd (get rrc name w), hs @ [fst (get rrc name w)])"
| "client_step rrc (Clone i) (w, hs) =
     (if i < length hs then (snd (clone (hs ! i) w), hs @ [fst (clone (hs ! i) w)]) else (w, hs))"
| "client_step rrc (Drop i) (w, hs) =
     (if i < length hs then (snd (destroy (hs ! i) w), take i hs @ drop (Suc i) hs) else (w, hs))"
| "client_step rrc Unload_all (w, hs) = (unload_registry w, hs)"
| "client_step rrc Reload_all (w, hs) = (reload_registry rrc w, hs)"

definition client_run :: "'r resource_request_callback \<Rightarrow> 'r client_op list \<Rightarrow>
    'r world \<times> resource_handle list \<Rightarrow> 'r world \<times> resource_handle list" where
  "client_run rrc ops s = fold (client_step rrc) ops s"

text \<open>Every non-empty handle of the list points to an allocated slot.\<close>

definition handles_valid :: "'r world \<Rightarrow> resource_handle list \<Rightarrow> bool" where
  "handles_valid w hs \<longleftrightarrow> (\<forall>h \<in> set hs. \<forall>b. shr h = Some b \<longrightarrow> b < length (heap w))"

text \<open>
  The objects the client registers itself, and the programs that never call \<^verbatim>\<open>reg\<close> on
  a slot that is loaded at that moment.
\<close>

fun reg_objects :: "'r client_op list \<Rightarrow> 'r option list" where
  "reg_objects [] = []"
| "reg_objects (Reg name obj # ops) = obj # reg_objects ops"
| "reg_objects (op # ops) = reg_objects ops"

fun regs_on_free_slots :: "'r resource_request_callback \<Rightarrow> 'r client_op list \<Rightarrow>
    'r world \<times> resource_handle list \<Rightarrow> bool" where
  "regs_on_free_slots rrc [] s = True"
| "regs_on_free_slots rrc (Reg name obj # ops) s =
     (\<not> slot_loaded (fst s) name \<and> regs_on_free_slots rrc ops (client_step rrc (Reg name obj) s))"
| "regs_on_free_slots rrc (op # ops) s = regs_on_free_slots rrc ops (client_step rrc op s)"

subsection \<open>Example executions\<close>

text \<open>
  A fresh registry of \<open>nat\<close> resources; one object registered; the same with one and with
  two handles out; a name requested from a callback that defers the load; and a registry
  with two loaded slots and one that is not.
\<close>

definition ex_empty :: "nat world" where
  "ex_empty = resource_registry"

definition ex_loaded :: "nat world" where
  "ex_loaded = reg ''a'' (Some 7) resource_registry"

definition ex_held :: "nat world" where
  "ex_held = snd (get (\<lambda>_. []) ''a'' ex_loaded)"

definition ex_held_twice :: "nat world" where
  "ex_held_twice = snd (get (\<lambda>_. []) ''a'' ex_held)"

definition ex_deferred :: "nat world" where
  "ex_deferred = snd (get (\<lambda>_. []) ''b'' resource_registry)"

definition ex_three :: "nat world" where
  "ex_three = reg ''c'' (Some 3) (reg ''a'' (Some 1) ex_deferred)"

text \<open>
  A request callback that loads at once, and a client that gets a resource, copies and
  drops its handles, gets it again, unloads everything and registers a second name.
\<close>

definition ex_sync :: "nat resource_request_callback" where
  "ex_sync name = [(name, Some 9)]"

definition ex_program :: "nat client_op list" where
  "ex_program =
     [Get ''a'', Clone 0, Drop 0, Drop 0, Get ''a'', Unload_all, Drop 0, Reg ''b'' (Some 9)]"

section \<open>Auxiliary facts\<close>

lemma mutex_lock [simp]: "mutex (lock w) = True"
  and trace_lock [simp]: "trace (lock w) = trace w @ [Lock]"
  and heap_lock [simp]: "heap (lock w) = heap w"
  and reg_map_lock [simp]: "reg_map (lock w) = reg_map w"
  by (simp_all add: lock_def)

lemma mutex_unlock [simp]: "mutex (unlock w) = False"
  and trace_unlock [simp]: "trace (unlock w) = trace w @ [Unlock]"
  and heap_unlock [simp]: "heap (unlock w) = heap w"
  and reg_map_unlock [simp]: "reg_map (unlock w) = reg_map w"
  by (simp_all add: unlock_def)

lemma mutex_ruc [simp]: "mutex (ruc obj w) = mutex w"
  and trace_ruc [simp]: "trace (ruc obj w) = trace w @ [Unload obj]"
  and heap_ruc [simp]: "heap (ruc obj w) = heap w"
  and reg_map_ruc [simp]: "reg_map (ruc obj w) = reg_map w"
  by (simp_all add: ruc_def)

lemma mutex_store_state [simp]: "mutex (store_state a s w) = mutex w"
  and trace_store_state [simp]: "trace (store_state a s w) = trace w"
  and reg_map_store_state [simp]: "reg_map (store_state a s w) = reg_map w"
  and length_heap_store_state [simp]: "length (heap (store_state a s w)) = length (heap w)"
  by (simp_all add: store_state_def)

lemma mutex_store_object [simp]: "mutex (store_object a obj w) = mutex w"
  and trace_store_object [simp]: "trace (store_object a obj w) = trace w"
  and reg_map_store_object [simp]: "reg_map (store_object a obj w) = reg_map w"
  and length_heap_store_object [simp]: "length (heap (store_object a obj w)) = length (heap w)"
  by (simp_all add: store_object_def)

lemma mutex_store_count [simp]: "mutex (store_count a c w) = mutex w"
  and trace_store_count [simp]: "trace (store_count a c w) = trace w"
  and reg_map_store_count [simp]: "reg_map (store_count a c w) = reg_map w"
  and length_heap_store_count [simp]: "length (heap (store_count a c w)) = length (heap w)"
  by (simp_all add: store_count_def)

lemma nth_store_state:
  "a < length (heap w) \<Longrightarrow>
   heap (store_state a s w) ! b = (if b = a then (heap w ! a)\<lparr>state := s\<rparr> else heap w ! b)"
  by (simp add: store_state_def)

lemma nth_store_object:
  "a < length (heap w) \<Longrightarrow>
   heap (store_object a obj w) ! b = (if b = a then (heap w ! a)\<lparr>object := obj\<rparr> else heap w ! b)"
  by (simp add: store_object_def)

lemma nth_store_count:
  "a < length (heap w) \<Longrightarrow>
   heap (store_count a c w) ! b = (if b = a then (heap w ! a)\<lparr>count := c\<rparr> else heap w ! b)"
  by (simp add: store_count_def)

lemma find_existing:
  "map_of (reg_map w) name = Some a \<Longrightarrow> find_or_create_shared name w = (a, w)"
  by (simp add: find_or_create_shared_def)

lemma find_fresh:
  "map_of (reg_map w) name = None \<Longrightarrow>
   find_or_create_shared name w =
     (length (heap w),
      w\<lparr>heap := heap w @ [\<lparr>state = unloaded, count = 0, object = None\<rparr>],
        reg_map := reg_map w @ [(name, length (heap w))]\<rparr>)"
  by (simp add: find_or_create_shared_def)

lemma wf_lookup:
  "wf_world w \<Longrightarrow> map_of (reg_map w) name = Some a \<Longrightarrow> a < length (heap w)"
  by (force simp: wf_world_def dest: map_of_SomeD)

lemma find_props:
  assumes "wf_world w" and "find_or_create_shared name w = (a, w1)"
  shows "wf_world w1" and "a < length (heap w1)" and "map_of (reg_map w1) name = Some a"
    and "trace w1 = trace w" and "mutex w1 = mutex w"
    and "length (heap w) \<le> length (heap w1)"
    and "\<And>b. b < length (heap w) \<Longrightarrow> heap w1 ! b = heap w ! b"
    and "a \<ge> length (heap w) \<Longrightarrow> heap w1 ! a = \<lparr>state = unloaded, count = 0, object = None\<rparr>"
proof -
  show "wf_world w1"
  proof (cases "map_of (reg_map w) name")
    case None
    then have "name \<notin> fst ` set (reg_map w)" by (simp add: map_of_eq_None_iff)
    moreover have "length (heap w) \<notin> snd ` set (reg_map w)"
      using assms(1) by (auto simp: wf_world_def)
    ultimately show ?thesis using assms None
      by (fastforce simp: find_fresh wf_world_def less_Suc_eq)
  next
    case (Some b)
    then show ?thesis using assms by (simp add: find_existing)
  qed
  show "a < length (heap w1)"
    using assms by (cases "map_of (reg_map w) name") (auto simp: find_fresh find_existing wf_lookup)
  show "map_of (reg_map w1) name = Some a"
    using assms by (cases "map_of (reg_map w) name") (auto simp: find_fresh find_existing map_add_def)
  show "trace w1 = trace w" "mutex w1 = mutex w" "length (heap w) \<le> length (heap w1)"
    using assms by (cases "map_of (reg_map w) name"; auto simp: find_fresh find_existing)+
  show "\<And>b. b < length (heap w) \<Longrightarrow> heap w1 ! b = heap w ! b"
    using assms by (cases "map_of (reg_map w) name") (auto simp: find_fresh find_existing nth_append)
  show "a \<ge> length (heap w) \<Longrightarrow> heap w1 ! a = \<lparr>state = unloaded, count = 0, object = None\<rparr>"
    using assms by (cases "map_of (reg_map w) name") (auto simp: find_fresh find_existing dest: wf_lookup)
qed

lemma wf_world_cong:
  "reg_map w' = reg_map w \<Longrightarrow> length (heap w') = length (heap w) \<Longrightarrow> wf_world w' = wf_world w"
  by (simp add: wf_world_def)

lemma wf_lock [simp]: "wf_world (lock w) = wf_world w"
  and wf_unlock [simp]: "wf_world (unlock w) = wf_world w"
  and wf_ruc [simp]: "wf_world (ruc obj w) = wf_world w"
  and wf_store_state [simp]: "wf_world (store_state a s w) = wf_world w"
  and wf_store_object [simp]: "wf_world (store_object a obj w) = wf_world w"
  and wf_store_count [simp]: "wf_world (store_count a c w) = wf_world w"
  by (simp_all add: wf_world_def)

lemma trace_find: "trace (snd (find_or_create_shared name w)) = trace w"
  by (simp add: find_or_create_shared_def split: option.split)

lemma trace_reg: "trace (reg name obj w) = trace w @ [Lock, Unlock, Unlock]"
proof -
  obtain a w1 where f: "find_or_create_shared name (lock w) = (a, w1)"
    by (cases "find_or_create_shared name (lock w)")
  from trace_find [of name "lock w"] f have "trace w1 = trace w @ [Lock]" by simp
  with f show ?thesis by (simp add: reg_def)
qed

lemma find_length:
  "length (heap (snd (find_or_create_shared name w))) =
     (if map_of (reg_map w) name = None then Suc (length (heap w)) else length (heap w))"
  and find_fst:
  "fst (find_or_create_shared name w) =
     (case map_of (reg_map w) name of None \<Rightarrow> length (heap w) | Some a \<Rightarrow> a)"
  and find_reg_map:
  "reg_map (snd (find_or_create_shared name w)) =
     (if map_of (reg_map w) name = None then reg_map w @ [(name, length (heap w))] else reg_map w)"
  by (simp_all add: find_or_create_shared_def split: option.split)

lemma reg_props:
  assumes "wf_world w"
  shows "\<exists>a. map_of (reg_map (reg name obj w)) name = Some a \<and>
           a < length (heap (reg name obj w)) \<and>
           state (heap (reg name obj w) ! a) = loaded \<and>
           object (heap (reg name obj w) ! a) = obj \<and>
           (a < length (heap w) \<longrightarrow> map_of (reg_map w) name = Some a \<and> reg_map (reg name obj w) = reg_map w) \<and>
           (\<forall>b < length (heap (reg name obj w)). b \<noteq> a \<longrightarrow> b < length (heap w) \<and> heap (reg name obj w) ! b = heap w ! b)"
    and "wf_world (reg name obj w)"
    and "length (heap w) \<le> length (heap (reg name obj w))"
    and "mutex (reg name obj w) = False"
proof -
  obtain a w1 where f: "find_or_create_shared name (lock w) = (a, w1)"
    by (cases "find_or_create_shared name (lock w)")
  have wl: "wf_world (lock w)" using assms by simp
  note p = find_props [OF wl f]
  have r: "reg name obj w = unlock (store_state a loaded (store_object a obj (unlock w1)))"
    using f by (simp add: reg_def)
  have hl: "length (heap (reg name obj w)) = length (heap w1)" by (simp add: r)
  have rm: "reg_map (reg name obj w) = reg_map w1" by (simp add: r)
  have l1: "length (heap w1) = (if map_of (reg_map w) name = None then Suc (length (heap w)) else length (heap w))"
    using find_length [of name "lock w"] f by simp
  have a1: "a = (case map_of (reg_map w) name of None \<Rightarrow> length (heap w) | Some a \<Rightarrow> a)"
    using find_fst [of name "lock w"] f by (simp split: option.split)
  have m1: "reg_map w1 = (if map_of (reg_map w) name = None then reg_map w @ [(name, length (heap w))] else reg_map w)"
    using find_reg_map [of name "lock w"] f by simp
  show "wf_world (reg name obj w)" using p(1) by (simp add: r)
  show "length (heap w) \<le> length (heap (reg name obj w))" using p(6) by (simp add: r)
  show "mutex (reg name obj w) = False" by (simp add: r)
  have others: "\<forall>b < length (heap (reg name obj w)). b \<noteq> a \<longrightarrow> b < length (heap w) \<and> heap (reg name obj w) ! b = heap w ! b"
  proof (intro allI impI)
    fix b assume b: "b < length (heap (reg name obj w))" and ne: "b \<noteq> a"
    have bl: "b < length (heap w)"
      using b ne l1 a1 unfolding hl by (cases "map_of (reg_map w) name") simp_all
    with p(2) p(7) [of b] ne show "b < length (heap w) \<and> heap (reg name obj w) ! b = heap w ! b"
      by (simp add: r nth_store_state nth_store_object)
  qed
  have old: "a < length (heap w) \<longrightarrow> map_of (reg_map w) name = Some a \<and> reg_map (reg name obj w) = reg_map w"
    using a1 m1 unfolding rm by (cases "map_of (reg_map w) name") simp_all
  have "map_of (reg_map (reg name obj w)) name = Some a" using p(3) by (simp add: rm)
  moreover have "a < length (heap (reg name obj w))" using p(2) by (simp add: hl)
  moreover have "state (heap (reg name obj w) ! a) = loaded" using p(2)
    by (simp add: r nth_store_state nth_store_object)
  moreover have "object (heap (reg name obj w) ! a) = obj" using p(2)
    by (simp add: r nth_store_state nth_store_object)
  ultimately
  show "\<exists>a. map_of (reg_map (reg name obj w)) name = Some a \<and>
           a < length (heap (reg name obj w)) \<and>
           state (heap (reg name obj w) ! a) = loaded \<and>
           object (heap (reg name obj w) ! a) = obj \<and>
           (a < length (heap w) \<longrightarrow> map_of (reg_map w) name = Some a \<and> reg_map (reg name obj w) = reg_map w) \<and>
           (\<forall>b < length (heap (reg name obj w)). b \<noteq> a \<longrightarrow> b < length (heap w) \<and> heap (reg name obj w) ! b = heap w ! b)"
    using others old by blast
qed

lemma wf_registry [simp]: "wf_world resource_registry"
  by (simp add: wf_world_def resource_registry_def)

lemma unload_loop_frame:
  "length (heap (unload_loop ps w)) = length (heap w) \<and>
   reg_map (unload_loop ps w) = reg_map w \<and> mutex (unload_loop ps w) = mutex w"
  by (induction ps w rule: unload_loop.induct) simp_all

lemma unload_loop_trace:
  assumes "distinct (map snd ps)" and "\<forall>a \<in> set (map snd ps). a < length (heap w)"
  shows "trace (unload_loop ps w) =
           trace w @ map (unload_of w) (filter (\<lambda>(n, a). state (heap w ! a) = loaded) ps)"
  using assms
proof (induction ps w rule: unload_loop.induct)
  case (1 w)
  show ?case by simp
next
  case (2 name a ps w)
  let ?w' = "ruc (object (heap w ! a)) (store_state a unloaded w)"
  have a: "a < length (heap w)" and na: "a \<notin> snd ` set ps" and d: "distinct (map snd ps)"
    and v: "\<forall>b \<in> set (map snd ps). b < length (heap w)"
    using "2.prems" by auto
  have same: "\<And>p. p \<in> set ps \<Longrightarrow> heap (store_state a unloaded w) ! snd p = heap w ! snd p"
    using na a by (auto simp: nth_store_state)
  have f: "filter (\<lambda>(n, b). state (heap (store_state a unloaded w) ! b) = loaded) ps =
           filter (\<lambda>(n, b). state (heap w ! b) = loaded) ps"
    by (rule filter_cong [OF refl]) (use same in \<open>auto simp: split_def\<close>)
  have m: "map (unload_of ?w') (filter (\<lambda>(n, b). state (heap w ! b) = loaded) ps) =
           map (unload_of w) (filter (\<lambda>(n, b). state (heap w ! b) = loaded) ps)"
    by (rule map_cong [OF refl]) (use same in \<open>auto simp: unload_of_def\<close>)
  have hd: "unload_of w (name, a) = Unload (object (heap w ! a))"
    by (simp add: unload_of_def)
  show ?case
  proof (cases "state (heap w ! a) = loaded")
    case True
    have "trace (unload_loop ps ?w') =
            trace ?w' @ map (unload_of ?w') (filter (\<lambda>(n, b). state (heap ?w' ! b) = loaded) ps)"
      using "2.IH"(1) [OF True d] v by simp
    then show ?thesis using True by (simp add: f m hd)
  next
    case False
    then show ?thesis using "2.IH"(2) [OF False d v] by simp
  qed
qed

lemma unload_loop_heap:
  assumes "\<forall>a \<in> set (map snd ps). a < length (heap w)" and "b < length (heap w)"
  shows "heap (unload_loop ps w) ! b =
           (if b \<in> set (map snd ps) \<and> state (heap w ! b) = loaded
            then (heap w ! b)\<lparr>state := unloaded\<rparr> else heap w ! b)"
  using assms
proof (induction ps w rule: unload_loop.induct)
  case (1 w)
  show ?case by simp
next
  case (2 name a ps w)
  let ?w' = "ruc (object (heap w ! a)) (store_state a unloaded w)"
  have a: "a < length (heap w)" and v: "\<forall>c \<in> set (map snd ps). c < length (heap w)"
    using "2.prems" by auto
  show ?case
  proof (cases "state (heap w ! a) = loaded")
    case True
    have "heap (unload_loop ps ?w') ! b =
           (if b \<in> set (map snd ps) \<and> state (heap ?w' ! b) = loaded
            then (heap ?w' ! b)\<lparr>state := unloaded\<rparr> else heap ?w' ! b)"
      using "2.IH"(1) [OF True] v "2.prems"(2) by simp
    then show ?thesis using True a by (auto simp: nth_store_state)
  next
    case False
    then show ?thesis using "2.IH"(2) [OF False v "2.prems"(2)] by auto
  qed
qed

lemma reload_loop_fst: "fst (reload_loop ps w acc) = unload_loop ps w"
  by (induction ps w acc rule: reload_loop.induct) simp_all

lemma reload_loop_snd:
  assumes "distinct (map snd ps)" and "\<forall>a \<in> set (map snd ps). a < length (heap w)"
  shows "snd (reload_loop ps w acc) =
           acc @ map fst (filter (\<lambda>(n, a). state (heap w ! a) = loaded) ps)"
  using assms
proof (induction ps w acc rule: reload_loop.induct)
  case (1 w acc)
  show ?case by simp
next
  case (2 name a ps w acc)
  let ?w' = "ruc (object (heap w ! a)) (store_state a unloaded w)"
  have a: "a < length (heap w)" and na: "a \<notin> snd ` set ps" and d: "distinct (map snd ps)"
    and v: "\<forall>b \<in> set (map snd ps). b < length (heap w)"
    using "2.prems" by auto
  have same: "\<And>p. p \<in> set ps \<Longrightarrow> heap (store_state a unloaded w) ! snd p = heap w ! snd p"
    using na a by (auto simp: nth_store_state)
  have f: "filter (\<lambda>(n, b). state (heap (store_state a unloaded w) ! b) = loaded) ps =
           filter (\<lambda>(n, b). state (heap w ! b) = loaded) ps"
    by (rule filter_cong [OF refl]) (use same in \<open>auto simp: split_def\<close>)
  show ?case
  proof (cases "state (heap w ! a) = loaded")
    case True
    have "snd (reload_loop ps ?w' (acc @ [name])) =
            (acc @ [name]) @ map fst (filter (\<lambda>(n, b). state (heap ?w' ! b) = loaded) ps)"
      using "2.IH"(1) [OF True d] v by simp
    then show ?thesis using True by (simp add: f)
  next
    case False
    then show ?thesis using "2.IH"(2) [OF False d v] by simp
  qed
qed

lemma events_sinceI: "trace w' = trace w @ es \<Longrightarrow> events_since w w' = es"
  by (simp add: events_since_def)

lemma trace_fold_reg:
  "trace (fold (\<lambda>(n, obj). reg n obj) xs w) =
     trace w @ concat (map (\<lambda>_. [Lock, Unlock, Unlock]) xs)"
  by (induction xs arbitrary: w) (simp_all add: trace_reg split_def)

lemma trace_rrc_call: "trace (rrc_call rrc name w) = trace w @ request_events rrc name"
  by (simp add: rrc_call_def trace_fold_reg request_events_def)

lemma trace_fold_rrc_call:
  "trace (fold (rrc_call rrc) names w) = trace w @ concat (map (request_events rrc) names)"
  by (induction names arbitrary: w) (simp_all add: trace_rrc_call)

lemma callbacks_append [simp]: "callbacks (xs @ ys) = callbacks xs @ callbacks ys"
  and callbacks_Nil [simp]: "callbacks [] = []"
  and callbacks_Lock [simp]: "callbacks (Lock # xs) = callbacks xs"
  and callbacks_Unlock [simp]: "callbacks (Unlock # xs) = callbacks xs"
  and callbacks_Request [simp]: "callbacks (Request n # xs) = Request n # callbacks xs"
  and callbacks_Unload [simp]: "callbacks (Unload obj # xs) = Unload obj # callbacks xs"
  by (simp_all add: callbacks_def)

lemma callbacks_regs: "callbacks (concat (map (\<lambda>_. [Lock, Unlock, Unlock]) xs)) = []"
  by (induction xs) simp_all

lemma callbacks_request_events: "callbacks (request_events rrc name) = [Request name]"
  by (simp add: request_events_def callbacks_regs)

lemma callbacks_requests:
  "callbacks (concat (map (request_events rrc) names)) = map Request names"
  by (induction names) (simp_all add: callbacks_request_events)

lemma callbacks_unloads: "callbacks (map (unload_of w) ps) = map (unload_of w) ps"
  by (induction ps) (simp_all add: unload_of_def)

lemma reload_registry_eq:
  "reload_registry rrc w =
     unlock (fold (rrc_call rrc) (snd (reload_loop (reg_map w) (lock w) []))
       (unlock (unload_loop (reg_map w) (lock w))))"
  by (simp add: reload_registry_def Let_def split_def reload_loop_fst)

lemma loaded_entries_lock [simp]: "loaded_entries (lock w) = loaded_entries w"
  by (simp add: loaded_entries_def)

lemma loaded_names_lock [simp]: "loaded_names (lock w) = loaded_names w"
  and length_loaded_names [simp]: "length (loaded_names w) = length (loaded_entries w)"
  by (simp_all add: loaded_names_def)

lemma unload_of_lock [simp]: "unload_of (lock w) = unload_of w"
  by (simp add: unload_of_def fun_eq_iff)

lemma wf_distinct: "wf_world w \<Longrightarrow> distinct (map snd (reg_map w))"
  and wf_valid: "wf_world w \<Longrightarrow> \<forall>a \<in> set (map snd (reg_map w)). a < length (heap w)"
  and wf_names: "wf_world w \<Longrightarrow> distinct (map fst (reg_map w))"
  by (simp_all add: wf_world_def)

lemma trace_unload_registry:
  assumes "wf_world w"
  shows "trace (unload_registry w) =
           trace w @ [Lock] @ map (unload_of w) (loaded_entries w) @ [Unlock]"
proof -
  have "trace (unload_loop (reg_map w) (lock w)) =
          trace (lock w) @ map (unload_of (lock w)) (loaded_entries (lock w))"
    unfolding loaded_entries_def
    using unload_loop_trace [of "reg_map w" "lock w"] wf_distinct [OF assms] wf_valid [OF assms]
    by simp
  then show ?thesis by (simp add: unload_registry_def)
qed

lemma to_load_eq:
  assumes "wf_world w"
  shows "snd (reload_loop (reg_map w) (lock w) []) = loaded_names w"
  using reload_loop_snd [of "reg_map w" "lock w" "[]"] wf_distinct [OF assms] wf_valid [OF assms]
  by (simp add: loaded_entries_def loaded_names_def)

lemma trace_reload_registry:
  assumes "wf_world w"
  shows "trace (reload_registry rrc w) =
           trace w @ [Lock] @ map (unload_of w) (loaded_entries w) @ [Unlock] @
           concat (map (request_events rrc) (loaded_names w)) @ [Unlock]"
proof -
  have "trace (unload_loop (reg_map w) (lock w)) =
          trace (lock w) @ map (unload_of (lock w)) (loaded_entries (lock w))"
    unfolding loaded_entries_def
    using unload_loop_trace [of "reg_map w" "lock w"] wf_distinct [OF assms] wf_valid [OF assms]
    by simp
  then show ?thesis
    by (simp add: reload_registry_eq to_load_eq [OF assms] trace_fold_rrc_call)
qed

lemma filter_unload_callbacks: "filter is_unload (callbacks es) = filter is_unload es"
  and filter_request_callbacks: "filter is_request (callbacks es) = filter is_request es"
  by (induction es) (auto simp: callbacks_def)

lemma filter_unload_unloads: "filter is_unload (map (unload_of w) ps) = map (unload_of w) ps"
  and filter_request_unloads: "filter is_request (map (unload_of w) ps) = []"
  by (induction ps) (simp_all add: unload_of_def)

lemma filter_unload_requests: "filter is_unload (map Request ns) = []"
  and filter_request_requests: "filter is_request (map Request ns) = map Request ns"
  by (induction ns) simp_all

lemma callbacks_reload_registry:
  assumes "wf_world w"
  shows "callbacks (events_since w (reload_registry rrc w)) =
           map (unload_of w) (loaded_entries w) @ map Request (loaded_names w)"
  by (simp add: events_sinceI [OF trace_reload_registry [OF assms]] callbacks_unloads callbacks_requests)

lemma callbacks_unload_registry:
  assumes "wf_world w"
  shows "callbacks (events_since w (unload_registry w)) = map (unload_of w) (loaded_entries w)"
  by (simp add: events_sinceI [OF trace_unload_registry [OF assms]] callbacks_unloads)

lemma scan_unloads:
  assumes "wf_world w" and "p \<in> set (loaded_entries w)"
  shows "state (heap (unload_loop (reg_map w) (lock w)) ! snd p) = unloaded"
proof -
  have p: "p \<in> set (reg_map w)" and l: "state (heap w ! snd p) = loaded"
    using assms(2) by (auto simp: loaded_entries_def)
  then have v: "snd p < length (heap w)" using wf_valid [OF assms(1)] by auto
  show ?thesis
    using unload_loop_heap [of "reg_map w" "lock w" "snd p"] wf_valid [OF assms(1)] v p l
    by simp
qed

lemmas lotus_defs =
  resource_registry_def lock_def unlock_def find_or_create_shared_def ruc_def
  store_state_def store_object_def store_count_def reg_def rrc_call_def handle_from_def
  empty_handle_def clone_def destroy_def assign_def good_def arrow_def get_def
  reload_registry_def unload_registry_def

lemma ex_loaded_eq:
  "ex_loaded = \<lparr>mutex = False, reg_map = [(''a'', 0)],
      heap = [\<lparr>state = loaded, count = 0, object = Some 7\<rparr>],
      trace = [Lock, Unlock, Unlock]\<rparr>"
  by (simp add: ex_loaded_def lotus_defs)

lemma ex_held_eq:
  "ex_held = \<lparr>mutex = False, reg_map = [(''a'', 0)],
      heap = [\<lparr>state = loaded, count = 1, object = Some 7\<rparr>],
      trace = [Lock, Unlock, Unlock, Lock, Unlock, Unlock]\<rparr>"
  by (simp add: ex_held_def ex_loaded_eq lotus_defs)

lemma ex_held_twice_eq:
  "ex_held_twice = \<lparr>mutex = False, reg_map = [(''a'', 0)],
      heap = [\<lparr>state = loaded, count = 2, object = Some 7\<rparr>],
      trace = [Lock, Unlock, Unlock, Lock, Unlock, Unlock, Lock, Unlock, Unlock]\<rparr>"
  by (simp add: ex_held_twice_def ex_held_eq lotus_defs)

lemma ex_deferred_eq:
  "ex_deferred = \<lparr>mutex = False, reg_map = [(''b'', 0)],
      heap = [\<lparr>state = unloaded, count = 1, object = None\<rparr>],
      trace = [Lock, Unlock, Request ''b'', Unlock]\<rparr>"
  by (simp add: ex_deferred_def lotus_defs)

lemma ex_three_eq:
  "ex_three = \<lparr>mutex = False, reg_map = [(''b'', 0), (''a'', 1), (''c'', 2)],
      heap = [\<lparr>state = unloaded, count = 1, object = None\<rparr>,
              \<lparr>state = loaded, count = 0, object = Some 1\<rparr>,
              \<lparr>state = loaded, count = 0, object = Some 3\<rparr>],
      trace = [Lock, Unlock, Request ''b'', Unlock, Lock, Unlock, Unlock, Lock, Unlock, Unlock]\<rparr>"
  by (simp add: ex_three_def ex_deferred_eq lotus_defs)

lemma wf_ex_three: "wf_world ex_three"
  by (simp add: ex_three_eq wf_world_def)

lemma loaded_entries_ex_three: "loaded_entries ex_three = [(''a'', 1), (''c'', 2)]"
  by (simp add: ex_three_eq loaded_entries_def)

lemma mutex_after_append: "mutex_after m (xs @ ys) = mutex_after (mutex_after m xs) ys"
  by (induction m xs rule: mutex_after.induct) simp_all

lemma held_at_append: "held_at m (xs @ ys) = held_at m xs @ held_at (mutex_after m xs) ys"
proof (induction xs arbitrary: m)
  case Nil
  show ?case by simp
next
  case (Cons e xs)
  have "mutex_after m (e # xs) = mutex_after (mutex_after m [e]) xs"
    using mutex_after_append [of m "[e]" xs] by simp
  then show ?case by (simp add: Cons.IH)
qed

lemma held_at_event: "(e, h) \<in> set (held_at m es) \<Longrightarrow> e \<in> set es"
  by (induction es arbitrary: m) auto

lemma held_at_unloads:
  "\<forall>e \<in> set us. is_unload e \<Longrightarrow> held_at m us = map (\<lambda>e. (e, m)) us \<and> mutex_after m us = m"
proof (induction us)
  case Nil
  show ?case by simp
next
  case (Cons e us)
  then obtain obj where e: "e = Unload obj" by (cases e) auto
  with Cons show ?case by simp
qed

lemma regs_events: "e \<in> set (concat (map (\<lambda>_. [Lock, Unlock, Unlock]) xs)) \<Longrightarrow> e = Lock \<or> e = Unlock"
  by (induction xs) auto

lemma mutex_after_regs: "mutex_after False (concat (map (\<lambda>_. [Lock, Unlock, Unlock]) xs)) = False"
  by (induction xs) simp_all

lemma mutex_after_request_events: "mutex_after False (request_events rrc name) = False"
  by (simp add: request_events_def mutex_after_regs)

lemma held_at_request_events:
  assumes "(e, h) \<in> set (held_at False (request_events rrc name))"
  shows "\<not> is_unload e" and "is_request e \<Longrightarrow> \<not> h"
proof -
  from assms have "(e = Request name \<and> \<not> h) \<or>
      (e, h) \<in> set (held_at False (concat (map (\<lambda>_. [Lock, Unlock, Unlock]) (rrc name))))"
    by (auto simp: request_events_def)
  then have "(e = Request name \<and> \<not> h) \<or> e = Lock \<or> e = Unlock"
    using held_at_event regs_events by fast
  then show "\<not> is_unload e" and "is_request e \<Longrightarrow> \<not> h" by auto
qed

lemma held_at_requests:
  assumes "(e, h) \<in> set (held_at False (concat (map (request_events rrc) names)))"
  shows "\<not> is_unload e" and "is_request e \<Longrightarrow> \<not> h"
  using assms
proof (induction names)
  case Nil
  { case 1 then show ?case by simp }
  { case 2 then show ?case by simp }
next
  case (Cons n names)
  have split: "(e, h) \<in> set (held_at False (concat (map (request_events rrc) (n # names)))) \<Longrightarrow>
      (e, h) \<in> set (held_at False (request_events rrc n)) \<or>
      (e, h) \<in> set (held_at False (concat (map (request_events rrc) names)))"
    by (simp add: held_at_append mutex_after_request_events)
  { case 1
    with split Cons.IH(1) held_at_request_events(1) show ?case by blast }
  { case 2
    with split Cons.IH(2) held_at_request_events(2) show ?case by blast }
qed

lemma mutex_after_requests:
  "mutex_after False (concat (map (request_events rrc) names)) = False"
  by (induction names) (simp_all add: mutex_after_append mutex_after_request_events)

lemma unload_loop_unloads:
  "\<exists>us. trace (unload_loop ps w) = trace w @ us \<and> (\<forall>e \<in> set us. is_unload e)"
proof (induction ps w rule: unload_loop.induct)
  case (1 w)
  show ?case by simp
next
  case (2 name a ps w)
  show ?case
  proof (cases "state (heap w ! a) = loaded")
    case True
    from "2.IH"(1) [OF True] obtain us where
      "trace (unload_loop ps (ruc (object (heap w ! a)) (store_state a unloaded w))) =
         trace w @ Unload (object (heap w ! a)) # us" and "\<forall>e \<in> set us. is_unload e"
      by auto
    then have "trace (unload_loop ((name, a) # ps) w) = trace w @ (Unload (object (heap w ! a)) # us)
        \<and> (\<forall>e \<in> set (Unload (object (heap w ! a)) # us). is_unload e)"
      using True by simp
    then show ?thesis by blast
  next
    case False
    with "2.IH"(2) [OF False] show ?thesis by simp
  qed
qed

lemma trace_get:
  "\<exists>es. (es = [] \<or> es = request_events rrc name) \<and>
     trace (snd (get rrc name w)) = trace w @ [Lock, Unlock] @ es @ [Unlock]"
proof -
  obtain a w1 where f: "find_or_create_shared name (lock w) = (a, w1)"
    by (cases "find_or_create_shared name (lock w)")
  from trace_find [of name "lock w"] f have t: "trace w1 = trace w @ [Lock]" by simp
  show ?thesis
  proof (cases "state (heap w1 ! a) = unloaded")
    case True
    then have "trace (snd (get rrc name w)) = trace w @ [Lock, Unlock] @ request_events rrc name @ [Unlock]"
      using f t by (simp add: get_def handle_from_def trace_rrc_call Let_def)
    then show ?thesis by blast
  next
    case False
    then have "trace (snd (get rrc name w)) = trace w @ [Lock, Unlock] @ [] @ [Unlock]"
      using f t by (simp add: get_def handle_from_def Let_def)
    then show ?thesis by blast
  qed
qed

lemma trace_reload_shape:
  "\<exists>us names. (\<forall>e \<in> set us. is_unload e) \<and>
     trace (reload_registry rrc w) =
       trace w @ [Lock] @ us @ [Unlock] @ concat (map (request_events rrc) names) @ [Unlock]"
proof -
  from unload_loop_unloads [of "reg_map w" "lock w"] obtain us where
    u: "trace (unload_loop (reg_map w) (lock w)) = trace w @ [Lock] @ us" and a: "\<forall>e \<in> set us. is_unload e"
    by auto
  have "trace (reload_registry rrc w) =
       trace w @ [Lock] @ us @ [Unlock] @
       concat (map (request_events rrc) (snd (reload_loop (reg_map w) (lock w) []))) @ [Unlock]"
    by (simp add: reload_registry_eq trace_fold_rrc_call u)
  with a show ?thesis by blast
qed

lemma trace_unload_shape:
  "\<exists>us. (\<forall>e \<in> set us. is_unload e) \<and> trace (unload_registry w) = trace w @ [Lock] @ us @ [Unlock]"
proof -
  from unload_loop_unloads [of "reg_map w" "lock w"] obtain us where
    u: "trace (unload_loop (reg_map w) (lock w)) = trace w @ [Lock] @ us" and a: "\<forall>e \<in> set us. is_unload e"
    by auto
  have "trace (unload_registry w) = trace w @ [Lock] @ us @ [Unlock]"
    by (simp add: unload_registry_def u)
  with a show ?thesis by blast
qed

lemma held_at_get_shape:
  assumes "es = [] \<or> es = request_events rrc name"
    and "(e, h) \<in> set (held_at m ([Lock, Unlock] @ es @ [Unlock]))"
  shows "\<not> is_unload e" and "is_request e \<Longrightarrow> \<not> h"
proof -
  from assms(2) have "e = Lock \<or> e = Unlock \<or> (e, h) \<in> set (held_at False es)"
    by (auto simp: held_at_append)
  moreover have "(e, h) \<in> set (held_at False es) \<Longrightarrow> \<not> is_unload e \<and> (is_request e \<longrightarrow> \<not> h)"
    using assms(1) held_at_request_events [of e h rrc name] by auto
  ultimately show "\<not> is_unload e" and "is_request e \<Longrightarrow> \<not> h" by auto
qed

lemma held_at_bulk_shape:
  assumes "\<forall>e \<in> set us. is_unload e"
    and "(e, h) \<in> set (held_at m ([Lock] @ us @ [Unlock] @ concat (map (request_events rrc) names) @ [Unlock]))"
  shows "is_unload e \<Longrightarrow> h" and "is_request e \<Longrightarrow> \<not> h"
proof -
  note u = held_at_unloads [OF assms(1), of True]
  from assms(2) have "e = Lock \<or> e = Unlock \<or> (e \<in> set us \<and> h) \<or>
      (e, h) \<in> set (held_at False (concat (map (request_events rrc) names)))"
    by (auto simp: held_at_append mutex_after_append u)
  moreover have "(e, h) \<in> set (held_at False (concat (map (request_events rrc) names))) \<Longrightarrow>
      \<not> is_unload e \<and> (is_request e \<longrightarrow> \<not> h)"
    using held_at_requests [of e h rrc names] by auto
  moreover have "e \<in> set us \<Longrightarrow> \<not> is_request e"
    using assms(1) by (cases e) auto
  ultimately show "is_unload e \<Longrightarrow> h" and "is_request e \<Longrightarrow> \<not> h" by auto
qed

lemma filter_unload_regs: "filter is_unload (concat (map (\<lambda>_. [Lock, Unlock, Unlock]) xs)) = []"
  by (induction xs) simp_all

lemma filter_unload_request_events: "filter is_unload (request_events rrc name) = []"
  by (simp add: request_events_def filter_unload_regs)

lemma heap_reg:
  "heap (reg k x w) =
     (case map_of (reg_map w) k of
        Some a \<Rightarrow> (heap w)[a := (heap w ! a)\<lparr>object := x, state := loaded\<rparr>]
      | None \<Rightarrow> heap w @ [\<lparr>state = loaded, count = 0, object = x\<rparr>])"
proof (cases "map_of (reg_map w) k")
  case None
  then show ?thesis
    by (simp add: reg_def find_or_create_shared_def lock_def unlock_def store_state_def store_object_def)
next
  case (Some a)
  show ?thesis
  proof (cases "a < length (heap w)")
    case True
    with Some show ?thesis
      by (simp add: reg_def find_or_create_shared_def lock_def unlock_def store_state_def store_object_def)
  next
    case False
    with Some show ?thesis
      by (simp add: reg_def find_or_create_shared_def lock_def unlock_def store_state_def store_object_def
          list_update_beyond)
  qed
qed

lemma reg_map_reg:
  "reg_map (reg k x w) =
     (case map_of (reg_map w) k of
        Some a \<Rightarrow> reg_map w
      | None \<Rightarrow> reg_map w @ [(k, length (heap w))])"
  by (simp add: reg_def find_or_create_shared_def lock_def unlock_def store_state_def store_object_def
      split: option.split)

lemma map_of_inj:
  assumes "distinct (map snd ps)" and "map_of ps k = Some a" and "map_of ps n = Some a"
  shows "k = n"
proof -
  from assms(2,3) have "(k, a) \<in> set ps" and "(n, a) \<in> set ps" by (auto dest: map_of_SomeD)
  moreover from assms(1) have "inj_on snd (set ps)" by (simp add: distinct_map)
  ultimately have "(k, a) = (n, a)" by (auto dest!: inj_onD [where x = "(k, a)" and y = "(n, a)"])
  then show ?thesis by simp
qed

lemma length_heap_reg: "length (heap w) \<le> length (heap (reg k x w))"
  by (simp add: heap_reg split: option.split)

lemma reg_other_slot:
  assumes "wf_world w" and "map_of (reg_map w) n = Some a" and "k \<noteq> n"
  shows "heap (reg k x w) ! a = heap w ! a" and "map_of (reg_map (reg k x w)) n = Some a"
proof -
  have a: "a < length (heap w)" using assms(1,2) by (rule wf_lookup)
  show "heap (reg k x w) ! a = heap w ! a"
  proof (cases "map_of (reg_map w) k")
    case None
    with a show ?thesis by (simp add: heap_reg nth_append)
  next
    case (Some b)
    with assms have "b \<noteq> a" using map_of_inj [OF wf_distinct [OF assms(1)], of k a n] by auto
    with Some show ?thesis by (simp add: heap_reg)
  qed
  show "map_of (reg_map (reg k x w)) n = Some a"
    using assms(2,3) by (simp add: reg_map_reg map_add_def split: option.split)
qed

lemma fold_reg_other_slot:
  assumes "wf_world w" and "map_of (reg_map w) n = Some a" and "n \<notin> fst ` set xs"
  shows "heap (fold (\<lambda>(k, x). reg k x) xs w) ! a = heap w ! a \<and>
         map_of (reg_map (fold (\<lambda>(k, x). reg k x) xs w)) n = Some a \<and>
         wf_world (fold (\<lambda>(k, x). reg k x) xs w)"
  using assms
proof (induction xs arbitrary: w)
  case Nil
  then show ?case by simp
next
  case (Cons p xs)
  obtain k x where p: "p = (k, x)" by (cases p)
  with Cons.prems have k: "k \<noteq> n" and r: "n \<notin> fst ` set xs" by auto
  note o = reg_other_slot [OF Cons.prems(1,2) k, of x]
  have w: "wf_world (reg k x w)" using Cons.prems(1) by (rule reg_props(2))
  from Cons.IH [OF w o(2) r] o(1) p
  show ?case by simp
qed

lemma rrc_call_other_slot:
  assumes "wf_world w" and "map_of (reg_map w) n = Some a" and "n \<notin> fst ` set (rrc m)"
  shows "heap (rrc_call rrc m w) ! a = heap w ! a \<and>
         map_of (reg_map (rrc_call rrc m w)) n = Some a \<and>
         wf_world (rrc_call rrc m w)"
proof -
  let ?w = "w\<lparr>trace := trace w @ [Request m]\<rparr>"
  have "wf_world ?w" and "map_of (reg_map ?w) n = Some a"
    using assms(1,2) by (simp_all add: wf_world_def)
  from fold_reg_other_slot [where xs = "rrc m", OF this assms(3)] show ?thesis
    by (simp add: rrc_call_def)
qed

lemma fold_rrc_call_other_slot:
  assumes "wf_world w" and "map_of (reg_map w) n = Some a"
    and "\<forall>m \<in> set names. n \<notin> fst ` set (rrc m)"
  shows "heap (fold (rrc_call rrc) names w) ! a = heap w ! a \<and>
         map_of (reg_map (fold (rrc_call rrc) names w)) n = Some a \<and>
         wf_world (fold (rrc_call rrc) names w)"
  using assms
proof (induction names arbitrary: w)
  case Nil
  then show ?case by simp
next
  case (Cons m names)
  from Cons.prems(3) have m: "n \<notin> fst ` set (rrc m)" and r: "\<forall>m \<in> set names. n \<notin> fst ` set (rrc m)"
    by auto
  note o = rrc_call_other_slot [where rrc = rrc and m = m, OF Cons.prems(1,2) m]
  from Cons.IH [of "rrc_call rrc m w"] o r show ?case by simp
qed

lemma not_loaded_name:
  assumes "wf_world w" and "map_of (reg_map w) name = Some a" and "state (heap w ! a) \<noteq> loaded"
  shows "name \<notin> set (loaded_names w)"
proof
  assume "name \<in> set (loaded_names w)"
  then obtain b where b: "(name, b) \<in> set (reg_map w)" and l: "state (heap w ! b) = loaded"
    by (auto simp: loaded_names_def loaded_entries_def)
  from b wf_names [OF assms(1)] have "map_of (reg_map w) name = Some b" by simp
  with assms(2,3) l show False by simp
qed

lemma loaded_names_ex_three: "loaded_names ex_three = [''a'', ''c'']"
  by (simp add: loaded_names_def loaded_entries_ex_three)

lemma reg_map_reg_mono: "set (reg_map w) \<subseteq> set (reg_map (reg k x w))"
  by (auto simp: reg_map_reg split: option.split)

lemma length_heap_fold_reg: "length (heap w) \<le> length (heap (fold (\<lambda>(k, x). reg k x) xs w))"
proof (induction xs arbitrary: w)
  case Nil
  show ?case by simp
next
  case (Cons p xs)
  obtain k x where p: "p = (k, x)" by (cases p)
  have "length (heap w) \<le> length (heap (reg k x w))" by (rule length_heap_reg)
  also have "\<dots> \<le> length (heap (fold (\<lambda>(k, x). reg k x) xs (reg k x w)))" by (rule Cons.IH)
  finally show ?case by (simp add: p)
qed

lemma length_heap_rrc_call: "length (heap w) \<le> length (heap (rrc_call rrc m w))"
  using length_heap_fold_reg [of "w\<lparr>trace := trace w @ [Request m]\<rparr>" "rrc m"]
  by (simp add: rrc_call_def)

lemma length_heap_fold_rrc_call: "length (heap w) \<le> length (heap (fold (rrc_call rrc) names w))"
proof (induction names arbitrary: w)
  case Nil
  show ?case by simp
next
  case (Cons m names)
  have "length (heap w) \<le> length (heap (rrc_call rrc m w))" by (rule length_heap_rrc_call)
  also have "\<dots> \<le> length (heap (fold (rrc_call rrc) names (rrc_call rrc m w)))" by (rule Cons.IH)
  finally show ?case by simp
qed

lemma length_heap_reload_registry: "length (heap w) \<le> length (heap (reload_registry rrc w))"
  using length_heap_fold_rrc_call [of "unlock (unload_loop (reg_map w) (lock w))" rrc]
    unload_loop_frame [of "reg_map w" "lock w"]
  by (simp add: reload_registry_eq)

lemma length_heap_unload_registry: "length (heap (unload_registry w)) = length (heap w)"
  using unload_loop_frame [of "reg_map w" "lock w"] by (simp add: unload_registry_def)

lemma length_heap_destroy: "length (heap (snd (destroy h w))) = length (heap w)"
  by (cases "shr h") (simp_all add: destroy_def Let_def)

lemma length_heap_clone: "length (heap (snd (clone h w))) = length (heap w)"
  and shr_clone: "shr (fst (clone h w)) = shr h"
  by (cases "shr h"; simp add: clone_def)+

lemma get_eq:
  assumes "find_or_create_shared m (lock w) = (am, w1)"
  shows "get rrc m w =
     (\<lparr>shr = Some am\<rparr>,
      unlock (store_count am
        (count (heap (if state (heap w1 ! am) = unloaded then rrc_call rrc m (unlock w1) else unlock w1) ! am) + 1)
        (if state (heap w1 ! am) = unloaded then rrc_call rrc m (unlock w1) else unlock w1)))"
  using assms by (simp add: get_def handle_from_def Let_def)

lemma handles_valid_mono:
  "handles_valid w hs \<Longrightarrow> length (heap w) \<le> length (heap w') \<Longrightarrow> handles_valid w' hs"
  by (fastforce simp: handles_valid_def)

lemma handles_valid_append:
  "handles_valid w (hs @ [h]) \<longleftrightarrow> handles_valid w hs \<and> (\<forall>b. shr h = Some b \<longrightarrow> b < length (heap w))"
  by (auto simp: handles_valid_def)

lemma handles_valid_remove: "handles_valid w hs \<Longrightarrow> handles_valid w (take i hs @ drop (Suc i) hs)"
  by (auto simp: handles_valid_def dest: in_set_takeD in_set_dropD)

lemma handles_valid_nth:
  "handles_valid w hs \<Longrightarrow> i < length hs \<Longrightarrow> \<forall>b. shr (hs ! i) = Some b \<longrightarrow> b < length (heap w)"
  using nth_mem [of i hs] by (auto simp: handles_valid_def)

lemma trace_destroy_not_loaded:
  assumes "shr h = Some b" and "b < length (heap w)" and "state (heap w ! b) \<noteq> loaded"
  shows "trace (snd (destroy h w)) = trace w"
  using assms by (simp add: destroy_def Let_def nth_store_count)

lemma drop_after_unload_registry:
  assumes "wf_world w" and "shr h = Some b" and "b \<in> snd ` set (reg_map w)"
  shows "trace (snd (destroy h (unload_registry w))) = trace (unload_registry w)"
proof -
  have v: "\<forall>c \<in> set (map snd (reg_map (lock w))). c < length (heap (lock w))"
    using wf_valid [OF assms(1)] by simp
  have b: "b < length (heap w)" using wf_valid [OF assms(1)] assms(3) by auto
  have "state (heap (unload_loop (reg_map w) (lock w)) ! b) \<noteq> loaded"
    using unload_loop_heap [of "reg_map w" "lock w" b] v b assms(3) by simp
  then have s: "state (heap (unload_registry w) ! b) \<noteq> loaded"
    by (simp add: unload_registry_def)
  have "b < length (heap (unload_registry w))" using b by (simp add: length_heap_unload_registry)
  from trace_destroy_not_loaded [OF assms(2) this s] show ?thesis .
qed

lemma locks_free_append:
  "locks_free m (xs @ ys) \<longleftrightarrow> locks_free m xs \<and> locks_free (mutex_after m xs) ys"
  by (induction m xs rule: locks_free.induct) simp_all

lemma locks_free_unloads:
  "\<forall>e \<in> set us. is_unload e \<Longrightarrow> locks_free m us"
proof (induction us)
  case Nil
  show ?case by simp
next
  case (Cons e us)
  then obtain obj where "e = Unload obj" by (cases e) auto
  with Cons show ?case by simp
qed

lemma locks_free_regs: "locks_free False (concat (map (\<lambda>_. [Lock, Unlock, Unlock]) xs))"
  by (induction xs) simp_all

lemma locks_free_request_events: "locks_free False (request_events rrc name)"
  by (simp add: request_events_def locks_free_regs)

lemma locks_free_requests: "locks_free False (concat (map (request_events rrc) names))"
  by (induction names)
    (simp_all add: locks_free_append locks_free_request_events mutex_after_request_events)

lemma mutex_after_unloads: "\<forall>e \<in> set us. is_unload e \<Longrightarrow> mutex_after m us = m"
  using held_at_unloads [of us m] by simp

lemma never_locks_held_mutex:
  assumes "\<not> mutex w"
  shows "locks_free (mutex w) (events_since w (reg name obj w))"
    and "locks_free (mutex w) (events_since w (snd (get rrc name w)))"
    and "locks_free (mutex w) (events_since w (reload_registry rrc w))"
    and "locks_free (mutex w) (events_since w (unload_registry w))"
proof -
  show "locks_free (mutex w) (events_since w (reg name obj w))"
    using assms by (simp add: events_sinceI [OF trace_reg])
  from trace_get [of rrc name w] obtain es where
    es: "es = [] \<or> es = request_events rrc name"
    and g: "events_since w (snd (get rrc name w)) = [Lock, Unlock] @ es @ [Unlock]"
    by (auto simp: events_since_def)
  from es have "locks_free False es" by (auto simp: locks_free_request_events)
  then show "locks_free (mutex w) (events_since w (snd (get rrc name w)))"
    using assms by (simp add: g locks_free_append)
  from trace_reload_shape [of rrc w] obtain us names where
    us: "\<forall>e \<in> set us. is_unload e"
    and r: "events_since w (reload_registry rrc w) =
       [Lock] @ us @ [Unlock] @ concat (map (request_events rrc) names) @ [Unlock]"
    by (auto simp: events_since_def)
  show "locks_free (mutex w) (events_since w (reload_registry rrc w))"
    using assms locks_free_unloads [OF us, of True] mutex_after_unloads [OF us, of True]
    by (simp add: r locks_free_append locks_free_requests)
  from trace_unload_shape [of w] obtain vs where
    vs: "\<forall>e \<in> set vs. is_unload e"
    and u: "events_since w (unload_registry w) = [Lock] @ vs @ [Unlock]"
    by (auto simp: events_since_def)
  show "locks_free (mutex w) (events_since w (unload_registry w))"
    using assms locks_free_unloads [OF vs, of True] by (simp add: u locks_free_append)
qed

lemma mutex_free_after:
  "\<not> mutex (reg name obj w)" "\<not> mutex (snd (get rrc name w))"
  "\<not> mutex (reload_registry rrc w)" "\<not> mutex (unload_registry w)"
  by (simp_all add: reg_def get_def reload_registry_def unload_registry_def Let_def split_def)

lemma wf_fold_reg: "wf_world w \<Longrightarrow> wf_world (fold (\<lambda>(k, x). reg k x) xs w)"
proof (induction xs arbitrary: w)
  case Nil
  then show ?case by simp
next
  case (Cons p xs)
  obtain k x where p: "p = (k, x)" by (cases p)
  have "wf_world (reg k x w)" using Cons.prems by (rule reg_props(2))
  from Cons.IH [OF this] p show ?case by simp
qed

lemma wf_rrc_call: "wf_world w \<Longrightarrow> wf_world (rrc_call rrc m w)"
  using wf_fold_reg [of "w\<lparr>trace := trace w @ [Request m]\<rparr>" "rrc m"]
  by (simp add: rrc_call_def wf_world_def)

lemma wf_fold_rrc_call: "wf_world w \<Longrightarrow> wf_world (fold (rrc_call rrc) names w)"
  by (induction names arbitrary: w) (simp_all add: wf_rrc_call)

lemma wf_unload_loop: "wf_world (unload_loop ps w) = wf_world w"
  using unload_loop_frame [of ps w] by (simp add: wf_world_def)

text \<open>Every function keeps the registry well formed.\<close>

lemma wf_world_invariant:
  assumes "wf_world w"
  shows "wf_world (reg name obj w)" and "wf_world (snd (get rrc name w))"
    and "wf_world (reload_registry rrc w)" and "wf_world (unload_registry w)"
    and "wf_world (snd (clone h w))" and "wf_world (snd (destroy h w))"
proof -
  show "wf_world (reg name obj w)" using assms by (rule reg_props(2))
  obtain a w1 where f: "find_or_create_shared name (lock w) = (a, w1)"
    by (cases "find_or_create_shared name (lock w)")
  have "wf_world w1" using find_props(1) [OF _ f] assms by simp
  then show "wf_world (snd (get rrc name w))"
    by (simp add: get_eq [OF f] wf_rrc_call)
  show "wf_world (reload_registry rrc w)"
    using assms by (simp add: reload_registry_eq wf_fold_rrc_call wf_unload_loop)
  show "wf_world (unload_registry w)"
    using assms by (simp add: unload_registry_def wf_unload_loop)
  show "wf_world (snd (clone h w))"
    using assms by (cases "shr h") (simp_all add: clone_def)
  show "wf_world (snd (destroy h w))"
    using assms by (cases "shr h") (simp_all add: destroy_def Let_def)
qed

lemma filter_update_length:
  "a < length xs \<Longrightarrow>
   length (filter P (xs[a := y])) + (if P (xs ! a) then 1 else 0) =
   length (filter P xs) + (if P y then 1 else 0)"
proof (induction xs arbitrary: a)
  case Nil
  then show ?case by simp
next
  case (Cons x xs)
  show ?case
  proof (cases a)
    case 0
    then show ?thesis by simp
  next
    case (Suc b)
    with Cons.prems have "b < length xs" by simp
    from Cons.IH [OF this] Suc show ?thesis by simp
  qed
qed

lemma requested_append: "requested (xs @ ys) = requested xs @ requested ys"
  by (induction xs rule: requested.induct) simp_all

lemma registered_append:
  "registered rrc (xs @ ys) obj = registered rrc xs obj + registered rrc ys obj"
  by (simp add: registered_def requested_append)

lemma requested_unloads: "\<forall>e \<in> set us. is_unload e \<Longrightarrow> requested us = []"
proof (induction us)
  case Nil
  show ?case by simp
next
  case (Cons e us)
  then obtain x where "e = Unload x" by (cases e) auto
  with Cons show ?case by simp
qed

lemma requested_regs: "requested (concat (map (\<lambda>_. [Lock, Unlock, Unlock]) xs)) = []"
  by (induction xs) simp_all

lemma requested_request_events: "requested (request_events rrc m) = [m]"
  by (simp add: request_events_def requested_regs)

lemma unloads_regs: "count_list (concat (map (\<lambda>_. [Lock, Unlock, Unlock]) xs)) (Unload obj) = 0"
  by (induction xs) simp_all

lemma unloads_request_events: "count_list (request_events rrc m) (Unload obj) = 0"
  by (simp add: request_events_def unloads_regs)

lemma accounts_refl: "accounts rrc obj w w 0 0"
  by (simp add: accounts_def registered_def)

lemma accounts_trans:
  assumes "accounts rrc obj w w' d l" and "accounts rrc obj w' w'' d' l'"
  shows "accounts rrc obj w w'' (d + d') (l + l')"
proof -
  from assms(1) obtain es where
    1: "trace w' = trace w @ es"
       "count_list es (Unload obj) + held w' obj + l = held w obj + d + registered rrc es obj"
    by (auto simp: accounts_def)
  from assms(2) obtain fs where
    2: "trace w'' = trace w' @ fs"
       "count_list fs (Unload obj) + held w'' obj + l' = held w' obj + d' + registered rrc fs obj"
    by (auto simp: accounts_def)
  have "trace w'' = trace w @ (es @ fs)" using 1(1) 2(1) by simp
  moreover have "count_list (es @ fs) (Unload obj) + held w'' obj + (l + l') =
      held w obj + (d + d') + registered rrc (es @ fs) obj"
    using 1(2) 2(2) by (simp add: registered_append)
  ultimately show ?thesis unfolding accounts_def by blast
qed

lemma accounts_quiet:
  assumes "trace w' = trace w @ es" and "requested es = []"
    and "count_list es (Unload obj) = 0" and "held w' obj = held w obj"
  shows "accounts rrc obj w w' 0 0"
  unfolding accounts_def using assms by (intro exI [of _ es]) (simp add: registered_def)

lemma held_heap: "heap w' = heap w \<Longrightarrow> held w' obj = held w obj"
  by (simp add: held_def)

lemma held_store_count: "held (store_count b c w) obj = held w obj"
proof (cases "b < length (heap w)")
  case True
  from filter_update_length [OF True, of "\<lambda>s. state s = loaded \<and> object s = obj" "(heap w ! b)\<lparr>count := c\<rparr>"]
  show ?thesis by (simp add: held_def store_count_def)
next
  case False
  then show ?thesis by (simp add: held_def store_count_def list_update_beyond)
qed

lemma held_lock [simp]: "held (lock w) obj = held w obj"
  and held_unlock [simp]: "held (unlock w) obj = held w obj"
  and held_ruc [simp]: "held (ruc x w) obj = held w obj"
  by (simp_all add: held_def)

lemma accounts_lock: "accounts rrc obj w (lock w) 0 0"
  by (rule accounts_quiet [where es = "[Lock]"]) simp_all

lemma accounts_unlock: "accounts rrc obj w (unlock w) 0 0"
  by (rule accounts_quiet [where es = "[Unlock]"]) simp_all

lemma accounts_store_count: "accounts rrc obj w (store_count b c w) 0 0"
  by (rule accounts_quiet [where es = "[]"]) (simp_all add: held_store_count)

lemma accounts_unload_step:
  assumes "b < length (heap w)" and "state (heap w ! b) = loaded"
  shows "accounts rrc obj w (ruc (object (heap w ! b)) (store_state b unloaded w)) 0 0"
proof -
  let ?w' = "ruc (object (heap w ! b)) (store_state b unloaded w)"
  have "held (store_state b unloaded w) obj + (if object (heap w ! b) = obj then 1 else 0) = held w obj"
    using filter_update_length [OF assms(1), of "\<lambda>s. state s = loaded \<and> object s = obj"
        "(heap w ! b)\<lparr>state := unloaded\<rparr>"] assms(2)
    by (simp add: held_def store_state_def)
  then have "count_list [Unload (object (heap w ! b))] (Unload obj) + held ?w' obj + 0 =
      held w obj + 0 + registered rrc [Unload (object (heap w ! b))] obj"
    by (auto simp: registered_def)
  moreover have "trace ?w' = trace w @ [Unload (object (heap w ! b))]" by simp
  ultimately show ?thesis unfolding accounts_def by blast
qed

lemma accounts_destroy:
  assumes "\<forall>b. shr h = Some b \<longrightarrow> b < length (heap w)"
  shows "accounts rrc obj w (snd (destroy h w)) 0 0"
proof (cases "shr h")
  case None
  then show ?thesis by (simp add: destroy_def accounts_refl)
next
  case (Some b)
  with assms have b: "b < length (heap w)" by simp
  let ?w1 = "store_count b (count (heap w ! b) - 1) w"
  have a1: "accounts rrc obj w ?w1 0 0" by (rule accounts_store_count)
  have b1: "b < length (heap ?w1)" using b by simp
  show ?thesis
  proof (cases "count (heap w ! b) = 1 \<and> state (heap ?w1 ! b) = loaded")
    case True
    then have l: "state (heap ?w1 ! b) = loaded" by (rule conjunct2)
    from True have c: "count (heap w ! b) = 1" by (rule conjunct1)
    have "snd (destroy h w) = ruc (object (heap ?w1 ! b)) (store_state b unloaded ?w1)"
      using Some l c by (simp add: destroy_def Let_def)
    with accounts_trans [OF a1 accounts_unload_step [OF b1 l]] show ?thesis by simp
  next
    case False
    then have "snd (destroy h w) = ?w1"
      using Some by (auto simp: destroy_def Let_def)
    with a1 show ?thesis by simp
  qed
qed

lemma accounts_clone: "accounts rrc obj w (snd (clone h w)) 0 0"
  by (cases "shr h") (simp_all add: clone_def accounts_refl accounts_store_count)

lemma accounts_unload_loop:
  assumes "\<forall>b \<in> set (map snd ps). b < length (heap w)"
  shows "accounts rrc obj w (unload_loop ps w) 0 0"
  using assms
proof (induction ps w rule: unload_loop.induct)
  case (1 w)
  show ?case by (simp add: accounts_refl)
next
  case (2 name b ps w)
  have b: "b < length (heap w)" and v: "\<forall>c \<in> set (map snd ps). c < length (heap w)"
    using "2.prems" by auto
  show ?case
  proof (cases "state (heap w ! b) = loaded")
    case True
    let ?w' = "ruc (object (heap w ! b)) (store_state b unloaded w)"
    have s: "accounts rrc obj w ?w' 0 0" using b True by (rule accounts_unload_step)
    have "accounts rrc obj ?w' (unload_loop ps ?w') 0 0"
      using "2.IH"(1) [OF True] v by simp
    from accounts_trans [OF s this] True show ?thesis by simp
  next
    case False
    from "2.IH"(2) [OF False v] False show ?thesis by simp
  qed
qed

lemma accounts_unload_registry:
  assumes "wf_world w"
  shows "accounts rrc obj w (unload_registry w) 0 0"
proof -
  have "\<forall>b \<in> set (map snd (reg_map (lock w))). b < length (heap (lock w))"
    using wf_valid [OF assms] by simp
  from accounts_trans [OF accounts_trans [OF accounts_lock accounts_unload_loop [OF this]] accounts_unlock]
  show ?thesis by (simp add: unload_registry_def)
qed

lemma held_reg:
  assumes "wf_world w"
  shows "\<exists>l. held (reg k x w) obj + l = held w obj + (if x = obj then 1 else 0) \<and>
           (\<not> slot_loaded w k \<longrightarrow> l = 0)"
proof (cases "map_of (reg_map w) k")
  case None
  then have "held (reg k x w) obj + 0 = held w obj + (if x = obj then 1 else 0)"
    by (simp add: held_def heap_reg)
  then show ?thesis by blast
next
  case (Some a)
  then have a: "a < length (heap w)" using assms by (simp add: wf_lookup)
  let ?P = "\<lambda>s. state s = loaded \<and> object s = obj"
  let ?l = "if ?P (heap w ! a) then 1 else 0 :: nat"
  have "held (reg k x w) obj + ?l = held w obj + (if x = obj then 1 else 0)"
    using filter_update_length [OF a, of ?P "(heap w ! a)\<lparr>object := x, state := loaded\<rparr>"] Some
    by (simp add: held_def heap_reg)
  moreover have "\<not> slot_loaded w k \<longrightarrow> ?l = 0"
    using Some by (simp add: slot_loaded_def)
  ultimately show ?thesis by blast
qed

lemma held_fold_reg:
  assumes "wf_world w"
  shows "\<exists>l. held (fold (\<lambda>(k, x). reg k x) xs w) obj + l = held w obj + count_list (map snd xs) obj \<and>
           (length xs \<le> 1 \<and> (\<forall>p \<in> set xs. \<not> slot_loaded w (fst p)) \<longrightarrow> l = 0)"
  using assms
proof (induction xs arbitrary: w)
  case Nil
  show ?case by simp
next
  case (Cons p xs)
  obtain k x where p: "p = (k, x)" by (cases p)
  from held_reg [OF Cons.prems, of k x obj] obtain l1 where
    1: "held (reg k x w) obj + l1 = held w obj + (if x = obj then 1 else 0)"
    and z1: "\<not> slot_loaded w k \<longrightarrow> l1 = 0" by blast
  have wf: "wf_world (reg k x w)" using Cons.prems by (rule reg_props(2))
  from Cons.IH [OF wf] obtain l2 where
    2: "held (fold (\<lambda>(k, x). reg k x) xs (reg k x w)) obj + l2 =
          held (reg k x w) obj + count_list (map snd xs) obj"
    and z2: "length xs \<le> 1 \<and> (\<forall>p \<in> set xs. \<not> slot_loaded (reg k x w) (fst p)) \<longrightarrow> l2 = 0"
    by blast
  have "held (fold (\<lambda>(k, x). reg k x) (p # xs) w) obj + (l1 + l2) =
      held w obj + count_list (map snd (p # xs)) obj"
    using 1 2 p by auto
  moreover have "length (p # xs) \<le> 1 \<and> (\<forall>q \<in> set (p # xs). \<not> slot_loaded w (fst q)) \<longrightarrow> l1 + l2 = 0"
    using z1 z2 p by auto
  ultimately show ?case by blast
qed

lemma accounts_reg:
  assumes "wf_world w"
  shows "\<exists>l. accounts rrc obj w (reg k x w) (if x = obj then 1 else 0) l \<and>
           (\<not> slot_loaded w k \<longrightarrow> l = 0)"
proof -
  from held_reg [OF assms, of k x obj] obtain l where
    1: "held (reg k x w) obj + l = held w obj + (if x = obj then 1 else 0)"
    and z: "\<not> slot_loaded w k \<longrightarrow> l = 0" by blast
  have "trace (reg k x w) = trace w @ [Lock, Unlock, Unlock]" by (rule trace_reg)
  moreover have "count_list [Lock, Unlock, Unlock] (Unload obj) + held (reg k x w) obj + l =
      held w obj + (if x = obj then 1 else 0) + registered rrc [Lock, Unlock, Unlock] obj"
    using 1 by (simp add: registered_def)
  ultimately have "accounts rrc obj w (reg k x w) (if x = obj then 1 else 0) l"
    unfolding accounts_def by blast
  with z show ?thesis by blast
qed

lemma accounts_rrc_call:
  assumes "wf_world w"
  shows "\<exists>l. accounts rrc obj w (rrc_call rrc m w) 0 l \<and>
           (own_name_once rrc \<and> \<not> slot_loaded w m \<longrightarrow> l = 0)"
proof -
  let ?w0 = "w\<lparr>trace := trace w @ [Request m]\<rparr>"
  have wf0: "wf_world ?w0" using assms by (simp add: wf_world_def)
  have h0: "held ?w0 obj = held w obj" by (simp add: held_def)
  have s0: "slot_loaded ?w0 = slot_loaded w" by (simp add: slot_loaded_def fun_eq_iff split: option.split)
  from held_fold_reg [OF wf0, of "rrc m" obj] obtain l where
    1: "held (rrc_call rrc m w) obj + l = held w obj + count_list (map snd (rrc m)) obj"
    and z: "length (rrc m) \<le> 1 \<and> (\<forall>p \<in> set (rrc m). \<not> slot_loaded w (fst p)) \<longrightarrow> l = 0"
    unfolding rrc_call_def h0 s0 by blast
  have "trace (rrc_call rrc m w) = trace w @ request_events rrc m" by (rule trace_rrc_call)
  moreover have "count_list (request_events rrc m) (Unload obj) + held (rrc_call rrc m w) obj + l =
      held w obj + 0 + registered rrc (request_events rrc m) obj"
    using 1 by (simp add: registered_def requested_request_events unloads_request_events)
  ultimately have "accounts rrc obj w (rrc_call rrc m w) 0 l"
    unfolding accounts_def by blast
  moreover have "own_name_once rrc \<and> \<not> slot_loaded w m \<longrightarrow> l = 0"
    using z by (auto simp: own_name_once_def)
  ultimately show ?thesis by blast
qed

lemma accounts_find:
  assumes "find_or_create_shared m w = (am, w1)"
  shows "accounts rrc obj w w1 0 0"
proof -
  have t: "trace w1 = trace w @ []" using trace_find [of m w] assms by simp
  have "held w1 obj = held w obj"
    using assms by (cases "map_of (reg_map w) m") (auto simp: find_fresh find_existing held_def)
  with t show ?thesis by (intro accounts_quiet [where es = "[]"]) simp_all
qed

lemma accounts_get:
  assumes "wf_world w"
  shows "\<exists>l. accounts rrc obj w (snd (get rrc m w)) 0 l \<and> (own_name_once rrc \<longrightarrow> l = 0)"
proof -
  obtain am w1 where f: "find_or_create_shared m (lock w) = (am, w1)"
    by (cases "find_or_create_shared m (lock w)")
  have wfl: "wf_world (lock w)" using assms by simp
  note p = find_props [OF wfl f]
  let ?w3 = "if state (heap w1 ! am) = unloaded then rrc_call rrc m (unlock w1) else unlock w1"
  have a2: "accounts rrc obj w (unlock w1) 0 0"
    using accounts_trans [OF accounts_trans [OF accounts_lock accounts_find [OF f]] accounts_unlock]
    by simp
  have "\<exists>l. accounts rrc obj (unlock w1) ?w3 0 l \<and> (own_name_once rrc \<longrightarrow> l = 0)"
  proof (cases "state (heap w1 ! am) = unloaded")
    case True
    have wf2: "wf_world (unlock w1)" using p(1) by simp
    have "\<not> slot_loaded (unlock w1) m" using p(3) True by (simp add: slot_loaded_def)
    with accounts_rrc_call [OF wf2, of rrc obj m] True show ?thesis by auto
  next
    case False
    then show ?thesis using accounts_refl [of rrc obj "unlock w1"] by auto
  qed
  then obtain l where a3: "accounts rrc obj (unlock w1) ?w3 0 l" and z: "own_name_once rrc \<longrightarrow> l = 0"
    by blast
  have "accounts rrc obj w (snd (get rrc m w)) 0 l"
    using accounts_trans [OF accounts_trans [OF accounts_trans [OF a2 a3] accounts_store_count] accounts_unlock]
    by (simp add: get_eq [OF f])
  with z show ?thesis by blast
qed

lemma accounts_fold_rrc_call:
  assumes "wf_world w"
  shows "\<exists>l. accounts rrc obj w (fold (rrc_call rrc) names w) 0 l \<and>
           (own_name_once rrc \<and> distinct names \<and>
            (\<forall>m \<in> set names. \<exists>a. map_of (reg_map w) m = Some a \<and> state (heap w ! a) \<noteq> loaded)
            \<longrightarrow> l = 0)"
  using assms
proof (induction names arbitrary: w)
  case Nil
  show ?case using accounts_refl [of rrc obj w] by auto
next
  case (Cons m names)
  let ?w' = "rrc_call rrc m w"
  from accounts_rrc_call [OF Cons.prems, of rrc obj m] obtain l1 where
    1: "accounts rrc obj w ?w' 0 l1" and z1: "own_name_once rrc \<and> \<not> slot_loaded w m \<longrightarrow> l1 = 0"
    by blast
  have wf': "wf_world ?w'" using Cons.prems by (rule wf_rrc_call)
  from Cons.IH [OF wf'] obtain l2 where
    2: "accounts rrc obj ?w' (fold (rrc_call rrc) names ?w') 0 l2"
    and z2: "own_name_once rrc \<and> distinct names \<and>
            (\<forall>n \<in> set names. \<exists>a. map_of (reg_map ?w') n = Some a \<and> state (heap ?w' ! a) \<noteq> loaded)
            \<longrightarrow> l2 = 0"
    by blast
  have "accounts rrc obj w (fold (rrc_call rrc) (m # names) w) 0 (l1 + l2)"
    using accounts_trans [OF 1 2] by simp
  moreover have "l1 + l2 = 0"
    if c: "own_name_once rrc \<and> distinct (m # names) \<and>
            (\<forall>n \<in> set (m # names). \<exists>a. map_of (reg_map w) n = Some a \<and> state (heap w ! a) \<noteq> loaded)"
  proof -
    from c have own: "own_name_once rrc" and d: "distinct names" and nm: "m \<notin> set names" by auto
    from c have "\<not> slot_loaded w m" by (auto simp: slot_loaded_def)
    with z1 own have l1: "l1 = 0" by simp
    have "\<exists>a. map_of (reg_map ?w') n = Some a \<and> state (heap ?w' ! a) \<noteq> loaded" if n: "n \<in> set names" for n
    proof -
      from c n obtain a where a: "map_of (reg_map w) n = Some a" "state (heap w ! a) \<noteq> loaded" by auto
      have "n \<notin> fst ` set (rrc m)" using own n nm by (auto simp: own_name_once_def)
      from rrc_call_other_slot [where rrc = rrc and m = m, OF Cons.prems a(1) this] a(2)
      show ?thesis by simp
    qed
    with z2 own d have "l2 = 0" by blast
    with l1 show ?thesis by simp
  qed
  ultimately show ?case by blast
qed

lemma accounts_reload_registry:
  assumes "wf_world w"
  shows "\<exists>l. accounts rrc obj w (reload_registry rrc w) 0 l \<and> (own_name_once rrc \<longrightarrow> l = 0)"
proof -
  let ?w2 = "unload_loop (reg_map w) (lock w)"
  have v: "\<forall>b \<in> set (map snd (reg_map (lock w))). b < length (heap (lock w))"
    using wf_valid [OF assms] by simp
  have a2: "accounts rrc obj w (unlock ?w2) 0 0"
    using accounts_trans [OF accounts_trans [OF accounts_lock accounts_unload_loop [OF v]] accounts_unlock]
    by simp
  have wf2: "wf_world (unlock ?w2)" using assms by (simp add: wf_unload_loop)
  have rm: "reg_map ?w2 = reg_map w" using unload_loop_frame [of "reg_map w" "lock w"] by simp
  have free: "\<exists>a. map_of (reg_map (unlock ?w2)) m = Some a \<and> state (heap (unlock ?w2) ! a) \<noteq> loaded"
    if "m \<in> set (loaded_names w)" for m
  proof -
    from that obtain a where ma: "(m, a) \<in> set (reg_map w)"
      by (auto simp: loaded_names_def loaded_entries_def)
    then have "map_of (reg_map w) m = Some a" using wf_names [OF assms] by simp
    moreover have al: "a < length (heap w)" using ma wf_valid [OF assms] by auto
    have am: "a \<in> set (map snd (reg_map w))" using ma by force
    have "state (heap ?w2 ! a) \<noteq> loaded"
      using unload_loop_heap [of "reg_map w" "lock w" a] v al am by simp
    ultimately show ?thesis by (simp add: rm)
  qed
  have d: "distinct (loaded_names w)"
    using wf_names [OF assms] by (simp add: loaded_names_def loaded_entries_def distinct_map_filter)
  from accounts_fold_rrc_call [OF wf2, of rrc obj "loaded_names w"] obtain l where
    3: "accounts rrc obj (unlock ?w2) (fold (rrc_call rrc) (loaded_names w) (unlock ?w2)) 0 l"
    and z: "own_name_once rrc \<and> distinct (loaded_names w) \<and>
            (\<forall>m \<in> set (loaded_names w). \<exists>a. map_of (reg_map (unlock ?w2)) m = Some a \<and>
               state (heap (unlock ?w2) ! a) \<noteq> loaded) \<longrightarrow> l = 0"
    by blast
  have "accounts rrc obj w (reload_registry rrc w) 0 l"
    using accounts_trans [OF accounts_trans [OF a2 3] accounts_unlock]
    by (simp add: reload_registry_eq to_load_eq [OF assms])
  moreover have "own_name_once rrc \<longrightarrow> l = 0" using z d free by blast
  ultimately show ?thesis by blast
qed

lemma get_handle_valid:
  assumes "wf_world w"
  shows "length (heap w) \<le> length (heap (snd (get rrc m w)))"
    and "\<exists>b. shr (fst (get rrc m w)) = Some b \<and> b < length (heap (snd (get rrc m w)))"
proof -
  obtain am w1 where f: "find_or_create_shared m (lock w) = (am, w1)"
    by (cases "find_or_create_shared m (lock w)")
  have wfl: "wf_world (lock w)" using assms by simp
  note p = find_props [OF wfl f]
  let ?w3 = "if state (heap w1 ! am) = unloaded then rrc_call rrc m (unlock w1) else unlock w1"
  have l3: "length (heap w1) \<le> length (heap ?w3)"
    using length_heap_rrc_call [of "unlock w1" rrc m] by simp
  show "length (heap w) \<le> length (heap (snd (get rrc m w)))"
    using l3 p(6) by (simp add: get_eq [OF f])
  show "\<exists>b. shr (fst (get rrc m w)) = Some b \<and> b < length (heap (snd (get rrc m w)))"
    using l3 p(2) by (simp add: get_eq [OF f])
qed

lemma reg_objects_Cons: "reg_objects (op # ops) = reg_objects [op] @ reg_objects ops"
  by (cases op) simp_all

lemma regs_on_free_slots_Cons:
  "regs_on_free_slots rrc (op # ops) s \<longleftrightarrow>
     regs_on_free_slots rrc [op] s \<and> regs_on_free_slots rrc ops (client_step rrc op s)"
  by (cases op) simp_all

lemma client_step_wf:
  assumes "wf_world w" and "handles_valid w hs"
  shows "wf_world (fst (client_step rrc op (w, hs)))"
    and "handles_valid (fst (client_step rrc op (w, hs))) (snd (client_step rrc op (w, hs)))"
proof -
  show "wf_world (fst (client_step rrc op (w, hs)))"
    using wf_world_invariant [OF assms(1)] assms(1) by (cases op) simp_all
  show "handles_valid (fst (client_step rrc op (w, hs))) (snd (client_step rrc op (w, hs)))"
  proof (cases op)
    case (Reg n x)
    have "handles_valid (reg n x w) hs"
      using assms(2) by (rule handles_valid_mono) (rule length_heap_reg)
    with Reg show ?thesis by simp
  next
    case (Get m)
    note g = get_handle_valid [OF assms(1), of rrc m]
    from g(2) have "\<forall>b. shr (fst (get rrc m w)) = Some b \<longrightarrow> b < length (heap (snd (get rrc m w)))"
      by auto
    with handles_valid_mono [OF assms(2) g(1)] Get show ?thesis
      by (simp add: handles_valid_append)
  next
    case (Clone i)
    show ?thesis
    proof (cases "i < length hs")
      case True
      have "handles_valid (snd (clone (hs ! i) w)) hs"
        using assms(2) by (rule handles_valid_mono) (simp add: length_heap_clone)
      moreover have "\<forall>b. shr (fst (clone (hs ! i) w)) = Some b \<longrightarrow>
          b < length (heap (snd (clone (hs ! i) w)))"
        using handles_valid_nth [OF assms(2) True] by (simp add: length_heap_clone shr_clone)
      ultimately show ?thesis using Clone True by (simp add: handles_valid_append)
    next
      case False
      with Clone assms(2) show ?thesis by simp
    qed
  next
    case (Drop i)
    show ?thesis
    proof (cases "i < length hs")
      case True
      have "handles_valid (snd (destroy (hs ! i) w)) hs"
        using assms(2) by (rule handles_valid_mono) (simp add: length_heap_destroy)
      then have "handles_valid (snd (destroy (hs ! i) w)) (take i hs @ drop (Suc i) hs)"
        by (rule handles_valid_remove)
      with Drop True show ?thesis by simp
    next
      case False
      with Drop assms(2) show ?thesis by simp
    qed
  next
    case Unload_all
    have "handles_valid (unload_registry w) hs"
      using assms(2) by (rule handles_valid_mono) (simp add: length_heap_unload_registry)
    with Unload_all show ?thesis by simp
  next
    case Reload_all
    have "handles_valid (reload_registry rrc w) hs"
      using assms(2) by (rule handles_valid_mono) (rule length_heap_reload_registry)
    with Reload_all show ?thesis by simp
  qed
qed

lemma client_step_accounts:
  assumes "wf_world w" and "handles_valid w hs"
  shows "\<exists>l. accounts rrc obj w (fst (client_step rrc op (w, hs))) (count_list (reg_objects [op]) obj) l \<and>
           (own_name_once rrc \<and> regs_on_free_slots rrc [op] (w, hs) \<longrightarrow> l = 0)"
proof (cases op)
  case (Reg n x)
  with accounts_reg [OF assms(1), of rrc obj n x] show ?thesis by auto
next
  case (Get m)
  with accounts_get [OF assms(1), of rrc obj m] show ?thesis by auto
next
  case (Clone i)
  with accounts_clone [of rrc obj w "hs ! i"] accounts_refl [of rrc obj w] show ?thesis by auto
next
  case (Drop i)
  show ?thesis
  proof (cases "i < length hs")
    case True
    from accounts_destroy [OF handles_valid_nth [OF assms(2) True], of rrc obj] Drop True
    show ?thesis by auto
  next
    case False
    with Drop accounts_refl [of rrc obj w] show ?thesis by auto
  qed
next
  case Unload_all
  with accounts_unload_registry [OF assms(1), of rrc obj] show ?thesis by auto
next
  case Reload_all
  with accounts_reload_registry [OF assms(1), of rrc obj] show ?thesis by auto
qed

lemma client_run_accounts:
  assumes "wf_world w" and "handles_valid w hs"
  shows "\<exists>l. accounts rrc obj w (fst (client_run rrc ops (w, hs))) (count_list (reg_objects ops) obj) l \<and>
           (own_name_once rrc \<and> regs_on_free_slots rrc ops (w, hs) \<longrightarrow> l = 0)"
  using assms
proof (induction ops arbitrary: w hs)
  case Nil
  show ?case using accounts_refl [of rrc obj w] by (auto simp: client_run_def)
next
  case (Cons op ops)
  obtain w' hs' where s: "client_step rrc op (w, hs) = (w', hs')"
    by (cases "client_step rrc op (w, hs)")
  from client_step_wf [OF Cons.prems, of rrc op] s
  have wf': "wf_world w'" and hv': "handles_valid w' hs'" by simp_all
  from client_step_accounts [OF Cons.prems, of rrc obj op] s obtain l1 where
    1: "accounts rrc obj w w' (count_list (reg_objects [op]) obj) l1"
    and z1: "own_name_once rrc \<and> regs_on_free_slots rrc [op] (w, hs) \<longrightarrow> l1 = 0"
    by auto
  from Cons.IH [OF wf' hv'] obtain l2 where
    2: "accounts rrc obj w' (fst (client_run rrc ops (w', hs'))) (count_list (reg_objects ops) obj) l2"
    and z2: "own_name_once rrc \<and> regs_on_free_slots rrc ops (w', hs') \<longrightarrow> l2 = 0"
    by blast
  have r: "client_run rrc (op # ops) (w, hs) = client_run rrc ops (w', hs')"
    using s by (simp add: client_run_def)
  have c: "count_list (reg_objects (op # ops)) obj =
      count_list (reg_objects [op]) obj + count_list (reg_objects ops) obj"
    using reg_objects_Cons [of op ops] by simp
  have "accounts rrc obj w (fst (client_run rrc (op # ops) (w, hs)))
      (count_list (reg_objects (op # ops)) obj) (l1 + l2)"
    using accounts_trans [OF 1 2] unfolding r c .
  moreover have "own_name_once rrc \<and> regs_on_free_slots rrc (op # ops) (w, hs) \<longrightarrow> l1 + l2 = 0"
    using z1 z2 s regs_on_free_slots_Cons [of rrc op ops "(w, hs)"] by simp
  ultimately show ?case by blast
qed

lemma ex_program_run:
  "client_run ex_sync ex_program (ex_empty, []) =
     (\<lparr>mutex = False, reg_map = [(''a'', 0), (''b'', 1)],
       heap = [\<lparr>state = unloaded, count = 0, object = Some 9\<rparr>,
               \<lparr>state = loaded, count = 0, object = Some 9\<rparr>],
       trace = [Lock, Unlock, Request ''a'', Lock, Unlock, Unlock, Unlock,
                Unload (Some 9),
                Lock, Unlock, Request ''a'', Lock, Unlock, Unlock, Unlock,
                Lock, Unload (Some 9), Unlock,
                Lock, Unlock, Unlock]\<rparr>, [])"
  by (simp add: client_run_def ex_program_def ex_sync_def ex_empty_def lotus_defs)

lemma ex_program_free: "regs_on_free_slots ex_sync ex_program (ex_empty, [])"
  by (simp add: ex_program_def ex_sync_def ex_empty_def slot_loaded_def lotus_defs)

lemma ex_sync_own: "own_name_once ex_sync"
  by (simp add: own_name_once_def ex_sync_def)

section \<open>Properties\<close>

subsection \<open>C1: round trip of reg and get\<close>

text \<open>
  C1. Round trip. After \<^verbatim>\<open>reg(name, obj, registry)\<close>, \<^verbatim>\<open>get(name, registry)\<close> returns a
  handle whose \<^verbatim>\<open>good()\<close> is true and whose \<^verbatim>\<open>operator->\<close> returns \<open>obj\<close>; this \<^verbatim>\<open>get\<close>
  locks and unlocks the mutex and invokes no callback.
\<close>

theorem reg_get_round_trip:
  assumes "wf_world w"
  shows "case get rrc name (reg name obj w) of (h, w') \<Rightarrow>
           good w' h = Some True \<and> arrow w' h = Some obj \<and>
           trace w' = trace (reg name obj w) @ [Lock, Unlock, Unlock]"
proof -
  let ?w1 = "reg name obj w"
  from reg_props(1) [OF assms, of name obj] obtain a where
    m: "map_of (reg_map ?w1) name = Some a" and a: "a < length (heap ?w1)"
    and st: "state (heap ?w1 ! a) = loaded" and ob: "object (heap ?w1 ! a) = obj"
    by blast
  have f: "find_or_create_shared name (lock ?w1) = (a, lock ?w1)"
    using m by (simp add: find_existing)
  have g: "get rrc name ?w1 =
      (\<lparr>shr = Some a\<rparr>, unlock (store_count a (count (heap ?w1 ! a) + 1) (unlock (lock ?w1))))"
    using st by (simp add: get_def f handle_from_def)
  show ?thesis using a st ob
    by (simp add: g good_def arrow_def nth_store_count)
qed

theorem reg_get_round_trip_witness:
  "wf_world (resource_registry :: nat world) \<and>
   (case get (\<lambda>_. []) ''a'' (reg ''a'' (Some (7::nat)) resource_registry) of (h, w') \<Rightarrow>
           good w' h = Some True \<and> arrow w' h = Some (Some 7) \<and>
           trace w' = [Lock, Unlock, Unlock, Lock, Unlock, Unlock])"
  using reg_get_round_trip [OF wf_registry, where rrc = "\<lambda>_. []"
      and name = "''a''" and obj = "Some (7::nat)"] wf_registry
  by (simp add: trace_reg resource_registry_def)

subsection \<open>C2: the last-drop rule\<close>

text \<open>
  C2. Last-drop rule. Destroying a handle invokes the unload callback exactly when the
  decrement takes the count from 1 to 0 while the slot is \<open>loaded\<close>; the same event stores
  \<open>unloaded\<close> in the state. In every other case the destructor invokes nothing and leaves
  the state as it was; in particular it invokes nothing when the count stays above 0.
\<close>

theorem last_drop_rule:
  assumes "shr h = Some a" and "a < length (heap w)"
  shows "(count (heap w ! a) = 1 \<and> state (heap w ! a) = loaded \<longrightarrow>
            trace (snd (destroy h w)) = trace w @ [Unload (object (heap w ! a))] \<and>
            state (heap (snd (destroy h w)) ! a) = unloaded \<and>
            count (heap (snd (destroy h w)) ! a) = 0) \<and>
         (\<not> (count (heap w ! a) = 1 \<and> state (heap w ! a) = loaded) \<longrightarrow>
            trace (snd (destroy h w)) = trace w \<and>
            state (heap (snd (destroy h w)) ! a) = state (heap w ! a)) \<and>
         (count (heap (snd (destroy h w)) ! a) \<noteq> 0 \<longrightarrow> trace (snd (destroy h w)) = trace w)"
  using assms
  by (auto simp: destroy_def Let_def store_count_def store_state_def ruc_def)

theorem last_drop_rule_witness:
  "shr \<lparr>shr = Some 0\<rparr> = Some 0 \<and> 0 < length (heap ex_held) \<and>
   count (heap ex_held ! 0) = 1 \<and> state (heap ex_held ! 0) = loaded \<and>
   trace (snd (destroy \<lparr>shr = Some 0\<rparr> ex_held)) = trace ex_held @ [Unload (Some 7)] \<and>
   state (heap (snd (destroy \<lparr>shr = Some 0\<rparr> ex_held)) ! 0) = unloaded \<and>
   0 < length (heap ex_held_twice) \<and>
   \<not> (count (heap ex_held_twice ! 0) = 1 \<and> state (heap ex_held_twice ! 0) = loaded) \<and>
   count (heap (snd (destroy \<lparr>shr = Some 0\<rparr> ex_held_twice)) ! 0) \<noteq> 0 \<and>
   trace (snd (destroy \<lparr>shr = Some 0\<rparr> ex_held_twice)) = trace ex_held_twice"
proof -
  have h: "shr \<lparr>shr = Some 0\<rparr> = Some 0" by simp
  have l1: "0 < length (heap ex_held)" by (simp add: ex_held_eq)
  have l2: "0 < length (heap ex_held_twice)" by (simp add: ex_held_twice_eq)
  have c1: "count (heap ex_held ! 0) = 1 \<and> state (heap ex_held ! 0) = loaded"
    by (simp add: ex_held_eq)
  have c2: "\<not> (count (heap ex_held_twice ! 0) = 1 \<and> state (heap ex_held_twice ! 0) = loaded)"
    by (simp add: ex_held_twice_eq)
  have o: "object (heap ex_held ! 0) = Some 7" by (simp add: ex_held_eq)
  have n: "count (heap (snd (destroy \<lparr>shr = Some 0\<rparr> ex_held_twice)) ! 0) \<noteq> 0"
    by (simp add: ex_held_twice_eq lotus_defs)
  show ?thesis
    using last_drop_rule [OF h l1] last_drop_rule [OF h l2] l1 l2 c1 c2 o n by simp
qed

subsection \<open>C3: pairing of loads and unloads\<close>

text \<open>
  C3 as stated fails. An object that is registered and never requested is still loaded,
  with no handle out, when the client is done, and the unload callback has not been
  invoked on it: the registry has no destructor that would do so. And an object whose slot
  is registered again while it is loaded is never unloaded either, even after the last
  handle is gone and \<^verbatim>\<open>unload_registry\<close> has run.
\<close>

theorem exactly_one_unload_counterexample:
  "count_list (events_since ex_empty
      (fst (client_run (\<lambda>_. []) [Reg ''a'' (Some 7)] (ex_empty, [])))) (Unload (Some 7)) = 0 \<and>
   client_run (\<lambda>_. []) [Reg ''a'' (Some 7)] (ex_empty, []) =
     (\<lparr>mutex = False, reg_map = [(''a'', 0)],
       heap = [\<lparr>state = loaded, count = 0, object = Some 7\<rparr>],
       trace = [Lock, Unlock, Unlock]\<rparr>, []) \<and>
   count_list (events_since ex_empty
      (fst (client_run (\<lambda>_. []) [Reg ''a'' (Some 7), Reg ''a'' (Some 8), Get ''a'', Drop 0, Unload_all]
         (ex_empty, [])))) (Unload (Some 7)) = 0 \<and>
   heap (fst (client_run (\<lambda>_. []) [Reg ''a'' (Some 7), Reg ''a'' (Some 8), Get ''a'', Drop 0, Unload_all]
         (ex_empty, []))) = [\<lparr>state = unloaded, count = 0, object = Some 8\<rparr>] \<and>
   snd (client_run (\<lambda>_. []) [Reg ''a'' (Some 7), Reg ''a'' (Some 8), Get ''a'', Drop 0, Unload_all]
         (ex_empty, [])) = []"
  by (simp add: client_run_def events_since_def ex_empty_def lotus_defs)

text \<open>
  C3, as the code has it. Count every registration of an object: the client's own calls
  of \<^verbatim>\<open>reg\<close> and the calls its request callback makes inside \<^verbatim>\<open>get\<close> and
  \<^verbatim>\<open>reload_registry\<close>. Along any sequence of \<^verbatim>\<open>reg\<close>, \<^verbatim>\<open>get\<close>, handle copies, handle
  drops, \<^verbatim>\<open>unload_registry\<close> and \<^verbatim>\<open>reload_registry\<close>, the invocations of the unload
  callback on \<open>obj\<close> and the slots that hold \<open>obj\<close> loaded never outnumber the
  registrations of \<open>obj\<close> (with the slots that held it at the start): no registration is
  unloaded twice. When no registration is made over a loaded slot (the client calls
  \<^verbatim>\<open>reg\<close> on slots that are not loaded, and the callback registers the name it is asked
  for, once at most) the two numbers are equal: every registration is either still held
  or was unloaded exactly once. In particular, once \<^verbatim>\<open>unload_registry\<close> has run,
  destroying a handle that is still outstanding invokes nothing.
\<close>

theorem unload_once_per_registration:
  assumes "wf_world w" and "handles_valid w hs"
  shows "count_list (events_since w (fst (client_run rrc ops (w, hs)))) (Unload obj) +
           held (fst (client_run rrc ops (w, hs))) obj \<le>
         held w obj + count_list (reg_objects ops) obj +
           registered rrc (events_since w (fst (client_run rrc ops (w, hs)))) obj \<and>
         (own_name_once rrc \<and> regs_on_free_slots rrc ops (w, hs) \<longrightarrow>
            count_list (events_since w (fst (client_run rrc ops (w, hs)))) (Unload obj) +
              held (fst (client_run rrc ops (w, hs))) obj =
            held w obj + count_list (reg_objects ops) obj +
              registered rrc (events_since w (fst (client_run rrc ops (w, hs)))) obj) \<and>
         (\<forall>h b. shr h = Some b \<and> b \<in> snd ` set (reg_map w) \<longrightarrow>
            trace (snd (destroy h (unload_registry w))) = trace (unload_registry w))"
proof -
  let ?w' = "fst (client_run rrc ops (w, hs))"
  from client_run_accounts [OF assms, of rrc obj ops] obtain l es where
    t: "trace ?w' = trace w @ es"
    and e: "count_list es (Unload obj) + held ?w' obj + l =
        held w obj + count_list (reg_objects ops) obj + registered rrc es obj"
    and z: "own_name_once rrc \<and> regs_on_free_slots rrc ops (w, hs) \<longrightarrow> l = 0"
    unfolding accounts_def by blast
  have es: "events_since w ?w' = es" using t by (rule events_sinceI)
  have 1: "count_list (events_since w ?w') (Unload obj) + held ?w' obj \<le>
      held w obj + count_list (reg_objects ops) obj + registered rrc (events_since w ?w') obj"
    using e unfolding es by linarith
  have 2: "own_name_once rrc \<and> regs_on_free_slots rrc ops (w, hs) \<longrightarrow>
      count_list (events_since w ?w') (Unload obj) + held ?w' obj =
      held w obj + count_list (reg_objects ops) obj + registered rrc (events_since w ?w') obj"
    using e z unfolding es by auto
  have 3: "\<forall>h b. shr h = Some b \<and> b \<in> snd ` set (reg_map w) \<longrightarrow>
      trace (snd (destroy h (unload_registry w))) = trace (unload_registry w)"
    using drop_after_unload_registry [OF assms(1)] by blast
  from 1 2 3 show ?thesis by blast
qed

theorem unload_once_per_registration_witness:
  "wf_world ex_empty \<and> handles_valid ex_empty [] \<and> own_name_once ex_sync \<and>
   regs_on_free_slots ex_sync ex_program (ex_empty, []) \<and>
   held ex_empty (Some 9) = 0 \<and> count_list (reg_objects ex_program) (Some 9) = 1 \<and>
   registered ex_sync (events_since ex_empty (fst (client_run ex_sync ex_program (ex_empty, [])))) (Some 9) = 2 \<and>
   held (fst (client_run ex_sync ex_program (ex_empty, []))) (Some 9) = 1 \<and>
   count_list (events_since ex_empty (fst (client_run ex_sync ex_program (ex_empty, [])))) (Unload (Some 9)) = 2"
proof -
  have w: "wf_world ex_empty" by (simp add: ex_empty_def)
  have v: "handles_valid ex_empty []" by (simp add: handles_valid_def)
  have h0: "held ex_empty (Some 9) = 0" by (simp add: held_def ex_empty_def resource_registry_def)
  have d: "count_list (reg_objects ex_program) (Some 9) = 1" by (simp add: ex_program_def)
  have r: "registered ex_sync (events_since ex_empty (fst (client_run ex_sync ex_program (ex_empty, []))))
      (Some 9) = 2"
    unfolding ex_program_run
    by (simp add: events_since_def ex_empty_def resource_registry_def registered_def ex_sync_def)
  have h1: "held (fst (client_run ex_sync ex_program (ex_empty, []))) (Some 9) = 1"
    by (simp add: ex_program_run held_def)
  from unload_once_per_registration [OF w v, of ex_sync ex_program "Some 9"]
    ex_sync_own ex_program_free h0 d r h1
  have "count_list (events_since ex_empty (fst (client_run ex_sync ex_program (ex_empty, []))))
      (Unload (Some 9)) = 2"
    by simp
  with w v ex_sync_own ex_program_free h0 d r h1 show ?thesis by blast
qed

subsection \<open>C4: the callbacks of reload_registry\<close>

text \<open>
  C4. In a registry whose map holds \<open>K\<close> slots in the state \<open>loaded\<close>,
  \<^verbatim>\<open>reload_registry\<close> invokes the unload callback \<open>K\<close> times and the request callback
  \<open>K\<close> times, all unloads before all requests: the unloads are those of the loop, at whose
  end each of the \<open>K\<close> slots is \<open>unloaded\<close>, and the requests follow it.
\<close>

theorem reload_registry_callbacks:
  assumes "wf_world w" and "length (loaded_entries w) = K"
  shows "length (filter is_unload (events_since w (reload_registry rrc w))) = K \<and>
         length (filter is_request (events_since w (reload_registry rrc w))) = K \<and>
         callbacks (events_since w (reload_registry rrc w)) =
           map (unload_of w) (loaded_entries w) @ map Request (loaded_names w) \<and>
         (\<exists>w2 to_load.
            reload_loop (reg_map w) (lock w) [] = (w2, to_load) \<and>
            reload_registry rrc w = unlock (fold (rrc_call rrc) to_load (unlock w2)) \<and>
            (\<forall>p \<in> set (loaded_entries w). state (heap w2 ! snd p) = unloaded) \<and>
            callbacks (events_since w w2) = map (unload_of w) (loaded_entries w) \<and>
            callbacks (events_since w2 (reload_registry rrc w)) = map Request (loaded_names w))"
proof -
  let ?es = "events_since w (reload_registry rrc w)"
  let ?w2 = "unload_loop (reg_map w) (lock w)"
  let ?tl = "snd (reload_loop (reg_map w) (lock w) [])"
  note c = callbacks_reload_registry [OF assms(1), of rrc]
  have u: "length (filter is_unload ?es) = K"
    using arg_cong [OF c, of "filter is_unload"] assms(2)
    by (simp add: filter_unload_callbacks filter_unload_unloads filter_unload_requests)
  have r: "length (filter is_request ?es) = K"
    using arg_cong [OF c, of "filter is_request"] assms(2)
    by (simp add: filter_request_callbacks filter_request_unloads filter_request_requests)
  have split: "reload_loop (reg_map w) (lock w) [] = (?w2, ?tl)"
    using reload_loop_fst [of "reg_map w" "lock w" "[]"] by (simp add: prod_eq_iff)
  have t2: "trace ?w2 = trace w @ [Lock] @ map (unload_of w) (loaded_entries w)"
    using unload_loop_trace [of "reg_map w" "lock w"] wf_distinct [OF assms(1)] wf_valid [OF assms(1)]
    by (simp add: loaded_entries_def)
  have c2: "callbacks (events_since w ?w2) = map (unload_of w) (loaded_entries w)"
    by (simp add: events_sinceI [OF t2] callbacks_unloads)
  have t3: "trace (reload_registry rrc w) =
      trace ?w2 @ [Unlock] @ concat (map (request_events rrc) (loaded_names w)) @ [Unlock]"
    by (simp add: trace_reload_registry [OF assms(1)] t2)
  have c3: "callbacks (events_since ?w2 (reload_registry rrc w)) = map Request (loaded_names w)"
    by (simp add: events_sinceI [OF t3] callbacks_requests)
  have mid: "\<forall>p \<in> set (loaded_entries w). state (heap ?w2 ! snd p) = unloaded"
    using scan_unloads [OF assms(1)] by blast
  have ex: "\<exists>w2 to_load.
            reload_loop (reg_map w) (lock w) [] = (w2, to_load) \<and>
            reload_registry rrc w = unlock (fold (rrc_call rrc) to_load (unlock w2)) \<and>
            (\<forall>p \<in> set (loaded_entries w). state (heap w2 ! snd p) = unloaded) \<and>
            callbacks (events_since w w2) = map (unload_of w) (loaded_entries w) \<and>
            callbacks (events_since w2 (reload_registry rrc w)) = map Request (loaded_names w)"
    using split reload_registry_eq [of rrc w] mid c2 c3 by blast
  from u r c ex show ?thesis by blast
qed

theorem reload_registry_callbacks_witness:
  "wf_world ex_three \<and> length (loaded_entries ex_three) = 2 \<and>
   length (filter is_unload (events_since ex_three (reload_registry (\<lambda>n. [(n, Some 9)]) ex_three))) = 2 \<and>
   length (filter is_request (events_since ex_three (reload_registry (\<lambda>n. [(n, Some 9)]) ex_three))) = 2 \<and>
   callbacks (events_since ex_three (reload_registry (\<lambda>n. [(n, Some 9)]) ex_three)) =
     [Unload (Some 1), Unload (Some 3), Request ''a'', Request ''c'']"
proof -
  have k: "length (loaded_entries ex_three) = 2" by (simp add: loaded_entries_ex_three)
  have u: "map (unload_of ex_three) (loaded_entries ex_three) = [Unload (Some 1), Unload (Some 3)]"
    unfolding loaded_entries_ex_three by (simp add: unload_of_def ex_three_eq)
  have n: "map Request (loaded_names ex_three) = [Request ''a'', Request ''c'']"
    by (simp add: loaded_names_def loaded_entries_ex_three)
  show ?thesis
    using reload_registry_callbacks [OF wf_ex_three k, of "\<lambda>n. [(n, Some 9)]"] wf_ex_three k
    unfolding u n by simp
qed

subsection \<open>C5: the mutex around the callbacks\<close>

text \<open>
  C5 as stated fails: \<^verbatim>\<open>unload_registry\<close> on a registry with one loaded slot invokes the
  unload callback between \<open>Lock\<close> and \<open>Unlock\<close>.
\<close>

theorem callbacks_unlocked_counterexample:
  "\<not> callbacks_unlocked (mutex ex_loaded) (events_since ex_loaded (unload_registry ex_loaded))"
  by (simp add: callbacks_unlocked_def events_since_def ex_loaded_eq lotus_defs)

text \<open>
  C5, as the code has it. The request callback never runs with the registry mutex held:
  \<^verbatim>\<open>get\<close> and \<^verbatim>\<open>reload_registry\<close> invoke it after they have unlocked, and \<^verbatim>\<open>get\<close> and
  \<^verbatim>\<open>reg\<close> invoke no unload callback. The unload callback of \<^verbatim>\<open>reload_registry\<close> and
  \<^verbatim>\<open>unload_registry\<close> is invoked inside the loop, with the mutex held.
\<close>

theorem requests_run_unlocked:
  "callbacks_unlocked (mutex w) (events_since w (snd (get rrc name w))) \<and>
   filter is_unload (events_since w (snd (get rrc name w))) = [] \<and>
   callbacks (events_since w (reg name obj w)) = [] \<and>
   requests_unlocked (mutex w) (events_since w (reload_registry rrc w)) \<and>
   unloads_locked (mutex w) (events_since w (reload_registry rrc w)) \<and>
   requests_unlocked (mutex w) (events_since w (unload_registry w)) \<and>
   unloads_locked (mutex w) (events_since w (unload_registry w))"
proof -
  from trace_get [of rrc name w] obtain es where
    es: "es = [] \<or> es = request_events rrc name"
    and g: "events_since w (snd (get rrc name w)) = [Lock, Unlock] @ es @ [Unlock]"
    by (auto simp: events_since_def)
  have 1: "callbacks_unlocked (mutex w) (events_since w (snd (get rrc name w)))"
    unfolding callbacks_unlocked_def g using held_at_get_shape [OF es] by blast
  have 0: "filter is_unload (events_since w (snd (get rrc name w))) = []"
    using es by (auto simp: g filter_unload_request_events)
  have 2: "callbacks (events_since w (reg name obj w)) = []"
    by (simp add: events_sinceI [OF trace_reg])
  from trace_reload_shape [of rrc w] obtain us names where
    us: "\<forall>e \<in> set us. is_unload e"
    and r: "events_since w (reload_registry rrc w) =
       [Lock] @ us @ [Unlock] @ concat (map (request_events rrc) names) @ [Unlock]"
    by (auto simp: events_since_def)
  have 3: "requests_unlocked (mutex w) (events_since w (reload_registry rrc w))"
    unfolding requests_unlocked_def r using held_at_bulk_shape(2) [OF us] by blast
  have 4: "unloads_locked (mutex w) (events_since w (reload_registry rrc w))"
    unfolding unloads_locked_def r using held_at_bulk_shape(1) [OF us] by blast
  from trace_unload_shape [of w] obtain vs where
    vs: "\<forall>e \<in> set vs. is_unload e"
    and u: "events_since w (unload_registry w) = [Lock] @ vs @ [Unlock] @ concat (map (request_events rrc) []) @ []"
    by (auto simp: events_since_def)
  have u': "events_since w (unload_registry w) @ [Unlock] =
      [Lock] @ vs @ [Unlock] @ concat (map (request_events rrc) []) @ [Unlock]"
    by (simp add: u)
  have sub: "set (held_at (mutex w) (events_since w (unload_registry w))) \<subseteq>
      set (held_at (mutex w) (events_since w (unload_registry w) @ [Unlock]))"
    by (auto simp: held_at_append)
  have 5: "requests_unlocked (mutex w) (events_since w (unload_registry w))"
    unfolding requests_unlocked_def using held_at_bulk_shape(2) [OF vs, of _ _ "mutex w" rrc "[]"] sub
    unfolding u' [symmetric] by blast
  have 6: "unloads_locked (mutex w) (events_since w (unload_registry w))"
    unfolding unloads_locked_def using held_at_bulk_shape(1) [OF vs, of _ _ "mutex w" rrc "[]"] sub
    unfolding u' [symmetric] by blast
  from 0 1 2 3 4 5 6 show ?thesis by blast
qed

theorem requests_run_unlocked_witness:
  "(Request ''b'', False) \<in> set (held_at (mutex ex_empty)
      (events_since ex_empty (snd (get (\<lambda>n. [(n, Some (9::nat))]) ''b'' ex_empty)))) \<and>
   callbacks_unlocked (mutex ex_empty)
      (events_since ex_empty (snd (get (\<lambda>n. [(n, Some (9::nat))]) ''b'' ex_empty))) \<and>
   (Request ''a'', False) \<in> set (held_at (mutex ex_loaded)
      (events_since ex_loaded (reload_registry (\<lambda>n. [(n, Some 9)]) ex_loaded))) \<and>
   requests_unlocked (mutex ex_loaded) (events_since ex_loaded (reload_registry (\<lambda>n. [(n, Some 9)]) ex_loaded)) \<and>
   (Unload (Some 7), True) \<in> set (held_at (mutex ex_loaded) (events_since ex_loaded (unload_registry ex_loaded))) \<and>
   unloads_locked (mutex ex_loaded) (events_since ex_loaded (unload_registry ex_loaded))"
proof -
  have 1: "(Request ''b'', False) \<in> set (held_at (mutex ex_empty)
      (events_since ex_empty (snd (get (\<lambda>n. [(n, Some (9::nat))]) ''b'' ex_empty))))"
    by (simp add: events_since_def ex_empty_def lotus_defs)
  have 2: "(Request ''a'', False) \<in> set (held_at (mutex ex_loaded)
      (events_since ex_loaded (reload_registry (\<lambda>n. [(n, Some 9)]) ex_loaded)))"
    by (simp add: events_since_def ex_loaded_eq lotus_defs)
  have 3: "(Unload (Some 7), True) \<in> set (held_at (mutex ex_loaded) (events_since ex_loaded (unload_registry ex_loaded)))"
    by (simp add: events_since_def ex_loaded_eq lotus_defs)
  show ?thesis
    using requests_run_unlocked [of ex_empty "\<lambda>n. [(n, Some 9)]" "''b''" None]
      requests_run_unlocked [of ex_loaded "\<lambda>n. [(n, Some 9)]" "''b''" None] 1 2 3
    by simp
qed

subsection \<open>C6: good\<close>

text \<open>
  C6. On a non-empty handle \<^verbatim>\<open>good()\<close> returns true exactly when the state of the slot it
  refers to is \<open>loaded\<close>. On an empty handle it dereferences the null pointer: the call
  has no defined result.
\<close>

theorem good_iff_loaded:
  "(shr h = Some a \<longrightarrow> good w h = Some (state (heap w ! a) = loaded)) \<and>
   (shr h = None \<longrightarrow> good w h = None)"
  by (simp add: good_def)

theorem good_iff_loaded_witness:
  "shr \<lparr>shr = Some 0\<rparr> = Some 0 \<and> good ex_loaded \<lparr>shr = Some 0\<rparr> = Some True \<and>
   good ex_deferred \<lparr>shr = Some 0\<rparr> = Some False \<and>
   shr empty_handle = None \<and> good ex_loaded empty_handle = None"
  using good_iff_loaded [of "\<lparr>shr = Some 0\<rparr>" 0 ex_loaded]
    good_iff_loaded [of "\<lparr>shr = Some 0\<rparr>" 0 ex_deferred]
    good_iff_loaded [of empty_handle 0 ex_loaded]
  by (simp add: ex_loaded_eq ex_deferred_eq empty_handle_def)

subsection \<open>C7: copying and destroying a handle\<close>

text \<open>
  C7. Copying a handle and destroying the copy leaves the whole world (every slot's state,
  count and object, and the trace of callbacks) as it was before the copy; the copy refers
  to the slot of the original, which is not touched. The original is a live handle, so
  the count of its slot is not 0.
\<close>

theorem clone_drop:
  assumes "\<And>a. shr h1 = Some a \<Longrightarrow> a < length (heap w) \<and> count (heap w ! a) \<noteq> 0"
  shows "case clone h1 w of (h2, w1) \<Rightarrow> shr h2 = shr h1 \<and> snd (destroy h2 w1) = w"
proof (cases "shr h1")
  case None
  then show ?thesis by (simp add: clone_def destroy_def)
next
  case (Some a)
  with assms have a: "a < length (heap w)" and c: "count (heap w ! a) \<noteq> 0" by auto
  have "(heap w)[a := heap w ! a] = heap w" by simp
  with a c Some show ?thesis
    by (simp add: clone_def destroy_def Let_def store_count_def)
qed

theorem clone_drop_witness:
  "shr \<lparr>shr = Some 0\<rparr> = Some 0 \<and> 0 < length (heap ex_held) \<and> count (heap ex_held ! 0) \<noteq> 0 \<and>
   (case clone \<lparr>shr = Some 0\<rparr> ex_held of (h2, w1) \<Rightarrow>
      shr h2 = Some 0 \<and> snd (destroy h2 w1) = ex_held)"
proof -
  have a: "\<And>a. shr \<lparr>shr = Some 0\<rparr> = Some a \<Longrightarrow>
      a < length (heap ex_held) \<and> count (heap ex_held ! a) \<noteq> 0"
    by (simp add: ex_held_eq)
  have b: "0 < length (heap ex_held) \<and> count (heap ex_held ! 0) \<noteq> 0"
    by (simp add: ex_held_eq)
  show ?thesis using clone_drop [of "\<lparr>shr = Some 0\<rparr>" ex_held, OF a] b by simp
qed

subsection \<open>C8: balanced locking\<close>

text \<open>
  C8. Balanced locking fails in \<^verbatim>\<open>reg\<close>, \<^verbatim>\<open>get\<close> and \<^verbatim>\<open>reload_registry\<close>: each locks the
  mutex once and unlocks it twice, the second time when it is not held.
  \<^verbatim>\<open>unload_registry\<close>, which leaves its guard alone, locks once and unlocks once.
\<close>

theorem double_unlock:
  "events_since resource_registry (reg ''a'' (Some (7::nat)) resource_registry) = [Lock, Unlock, Unlock] \<and>
   \<not> balanced False (events_since resource_registry (reg ''a'' (Some (7::nat)) resource_registry)) \<and>
   events_since ex_loaded (snd (get (\<lambda>_. []) ''a'' ex_loaded)) = [Lock, Unlock, Unlock] \<and>
   \<not> balanced False (events_since ex_loaded (snd (get (\<lambda>_. []) ''a'' ex_loaded))) \<and>
   events_since ex_loaded (reload_registry (\<lambda>_. []) ex_loaded) =
     [Lock, Unload (Some 7), Unlock, Request ''a'', Unlock] \<and>
   \<not> balanced False (events_since ex_loaded (reload_registry (\<lambda>_. []) ex_loaded)) \<and>
   events_since ex_loaded (unload_registry ex_loaded) = [Lock, Unload (Some 7), Unlock] \<and>
   balanced False (events_since ex_loaded (unload_registry ex_loaded))"
  by (simp add: events_since_def ex_loaded_eq lotus_defs)

subsection \<open>C9: the last drop of a slot that is not loaded\<close>

text \<open>
  C9. Destroying the last handle of a slot whose state is not \<open>loaded\<close> only stores the
  count 0: no callback is invoked, and the slot's state and object, the map and the mutex
  stay as they were.
\<close>

theorem drop_not_loaded:
  assumes "shr h = Some a" and "a < length (heap w)"
    and "count (heap w ! a) = 1" and "state (heap w ! a) \<noteq> loaded"
  shows "destroy h w = (empty_handle, w\<lparr>heap := (heap w)[a := (heap w ! a)\<lparr>count := 0\<rparr>]\<rparr>)"
  using assms
  by (auto simp: destroy_def Let_def store_count_def store_state_def ruc_def empty_handle_def)

theorem drop_not_loaded_witness:
  "shr \<lparr>shr = Some 0\<rparr> = Some 0 \<and> 0 < length (heap ex_deferred) \<and>
   count (heap ex_deferred ! 0) = 1 \<and> state (heap ex_deferred ! 0) \<noteq> loaded \<and>
   destroy \<lparr>shr = Some 0\<rparr> ex_deferred =
     (empty_handle, ex_deferred\<lparr>heap := [\<lparr>state = unloaded, count = 0, object = None\<rparr>]\<rparr>)"
proof -
  have h: "shr \<lparr>shr = Some 0\<rparr> = Some 0" by simp
  have l: "0 < length (heap ex_deferred)" by (simp add: ex_deferred_eq)
  have c: "count (heap ex_deferred ! 0) = 1" by (simp add: ex_deferred_eq)
  have s: "state (heap ex_deferred ! 0) \<noteq> loaded" by (simp add: ex_deferred_eq)
  have e: "(heap ex_deferred)[0 := (heap ex_deferred ! 0)\<lparr>count := 0\<rparr>] =
           [\<lparr>state = unloaded, count = 0, object = None\<rparr>]"
    by (simp add: ex_deferred_eq)
  show ?thesis using drop_not_loaded [OF h l c s] l c s unfolding e by simp
qed

subsection \<open>C10: the bulk functions and the slots that are not loaded\<close>

text \<open>
  C10. The bulk operations act on loaded slots only. A slot of the map whose state is not
  \<open>loaded\<close> is left as it is by \<^verbatim>\<open>unload_registry\<close> and by \<^verbatim>\<open>reload_registry\<close> (whose
  request callback may itself call \<^verbatim>\<open>reg\<close>: it is supposed not to register that slot's name
  when it is asked for the others). The callbacks invoked are those of the loaded entries,
  so none is invoked for that slot; its name is never requested.
\<close>

theorem bulk_skips_not_loaded:
  assumes "wf_world w" and "map_of (reg_map w) name = Some a" and "state (heap w ! a) \<noteq> loaded"
  shows "heap (unload_registry w) ! a = heap w ! a \<and>
         callbacks (events_since w (unload_registry w)) = map (unload_of w) (loaded_entries w) \<and>
         (name, a) \<notin> set (loaded_entries w) \<and>
         callbacks (events_since w (reload_registry rrc w)) =
           map (unload_of w) (loaded_entries w) @ map Request (loaded_names w) \<and>
         name \<notin> set (loaded_names w) \<and>
         Request name \<notin> set (events_since w (reload_registry rrc w)) \<and>
         ((\<forall>m \<in> set (loaded_names w). name \<notin> fst ` set (rrc m)) \<longrightarrow>
            heap (reload_registry rrc w) ! a = heap w ! a)"
proof -
  let ?w2 = "unload_loop (reg_map w) (lock w)"
  have a: "a < length (heap w)" using assms(1,2) by (rule wf_lookup)
  have scan: "heap ?w2 ! a = heap w ! a"
    using unload_loop_heap [of "reg_map w" "lock w" a] wf_valid [OF assms(1)] a assms(3) by simp
  have 1: "heap (unload_registry w) ! a = heap w ! a"
    using scan by (simp add: unload_registry_def)
  note 2 = callbacks_unload_registry [OF assms(1)]
  have 3: "(name, a) \<notin> set (loaded_entries w)"
    using assms(3) by (simp add: loaded_entries_def)
  note 4 = callbacks_reload_registry [OF assms(1), of rrc]
  note 5 = not_loaded_name [OF assms]
  have 6: "Request name \<notin> set (events_since w (reload_registry rrc w))"
  proof
    assume "Request name \<in> set (events_since w (reload_registry rrc w))"
    then have "Request name \<in> set (callbacks (events_since w (reload_registry rrc w)))"
      by (simp add: callbacks_def)
    then show False using 5 unfolding 4 by (auto simp: unload_of_def)
  qed
  have 7: "heap (reload_registry rrc w) ! a = heap w ! a"
    if r: "\<forall>m \<in> set (loaded_names w). name \<notin> fst ` set (rrc m)"
  proof -
    have wf2: "wf_world (unlock ?w2)"
      using assms(1) unload_loop_frame [of "reg_map w" "lock w"] by (simp add: wf_world_def)
    have m2: "map_of (reg_map (unlock ?w2)) name = Some a"
      using assms(2) unload_loop_frame [of "reg_map w" "lock w"] by simp
    from fold_rrc_call_other_slot [where rrc = rrc, OF wf2 m2 r] scan show ?thesis
      by (simp add: reload_registry_eq to_load_eq [OF assms(1)])
  qed
  from 1 2 3 4 5 6 7 show ?thesis by blast
qed

theorem bulk_skips_not_loaded_witness:
  "wf_world ex_three \<and> map_of (reg_map ex_three) ''b'' = Some 0 \<and>
   state (heap ex_three ! 0) \<noteq> loaded \<and>
   loaded_names ex_three = [''a'', ''c''] \<and>
   ''b'' \<notin> fst ` set ((\<lambda>n. [(n, Some (9::nat))]) ''a'') \<and>
   ''b'' \<notin> fst ` set ((\<lambda>n. [(n, Some (9::nat))]) ''c'') \<and>
   heap (unload_registry ex_three) ! 0 = heap ex_three ! 0 \<and>
   Request ''b'' \<notin> set (events_since ex_three (reload_registry (\<lambda>n. [(n, Some 9)]) ex_three)) \<and>
   heap (reload_registry (\<lambda>n. [(n, Some 9)]) ex_three) ! 0 = heap ex_three ! 0"
proof -
  have m: "map_of (reg_map ex_three) ''b'' = Some 0" by (simp add: ex_three_eq)
  have s: "state (heap ex_three ! 0) \<noteq> loaded" by (simp add: ex_three_eq)
  have r: "\<forall>m \<in> set (loaded_names ex_three). ''b'' \<notin> fst ` set ((\<lambda>n. [(n, Some (9::nat))]) m)"
    by (simp add: loaded_names_ex_three)
  show ?thesis
    using bulk_skips_not_loaded [OF wf_ex_three m s, of "\<lambda>n. [(n, Some 9)]"] wf_ex_three m s r
      loaded_names_ex_three
    by simp
qed

end
